theory Spec2Isabelle
  imports Complex_Main "HOL-Library.FSet"
begin

section \<open>Ant System for the travelling salesman problem: the model of script.js\<close>

text \<open>
  The engine of \<^verbatim>\<open>src/script.js\<close> is embedded function by function. City indices, array
  lengths and loop counters are natural numbers; \<^verbatim>\<open>Infinity\<close> as the initial best
  distance is \<open>None\<close>. \<^verbatim>\<open>Math.random()\<close> is a stream of draws \<open>rnd :: nat \<Rightarrow> real\<close>
  read at a position that every call advances by one; its contract is
  \<open>0 \<le> rnd i < 1\<close>. Canvas drawing and the DOM are left out, but for the array reads of
  \<^verbatim>\<open>drawTour\<close>.

  JavaScript numbers are embedded twice. In the first embedding coordinates, pheromone
  levels, distances and desirabilities are real numbers and the arithmetic is exact: it
  carries the statements on the store, the best record and the shape of the tours. The
  second embedding, from the subsection on double-precision numbers on, has the IEEE 754
  binary64 values, with every operation rounded to nearest, ties to even, and repeats
  the candidate loop, the roulette loop and the tour loop over them: it carries the
  statements on the selection itself, where rounding, underflow and \<^verbatim>\<open>NaN\<close> decide what
  the code does.
\<close>

subsection \<open>Data\<close>

text \<open>A city is \<^verbatim>\<open>{x, y}\<close>.\<close>

record city =
  pos_x :: real
  pos_y :: real

text \<open>The object \<^verbatim>\<open>pher\<close>: string keys to pheromone values.\<close>

type_synonym pheromones = "string \<rightharpoonup> real"

text \<open>The globals \<^verbatim>\<open>cities\<close>, \<^verbatim>\<open>pher\<close>, \<^verbatim>\<open>iter\<close>, \<^verbatim>\<open>bestDist\<close> (\<open>None\<close> is
  \<^verbatim>\<open>Infinity\<close>) and \<^verbatim>\<open>bestTour\<close> (\<open>None\<close> is \<^verbatim>\<open>null\<close>).\<close>

record model =
  cities :: "city list"
  pher :: pheromones
  iter :: nat
  bestDist :: "real option"
  bestTour :: "nat list option"

text \<open>The object \<^verbatim>\<open>params\<close> read from the sliders; \<^verbatim>\<open>parseInt\<close> gives an integer.\<close>

record params =
  alpha :: real
  beta :: real
  rho :: real
  ants :: int

text \<open>An entry \<^verbatim>\<open>{j, val}\<close> of \<^verbatim>\<open>probs\<close>.\<close>

record cand =
  cand_j :: nat
  cand_val :: real

text \<open>\<^verbatim>\<open>probs[0].j\<close> on an empty array throws a TypeError.\<close>

datatype error = TypeError

subsection \<open>Edge keys\<close>

text \<open>The decimal rendering of a non-negative integer in a template literal.\<close>

definition digit_char :: "nat \<Rightarrow> char" where
  "digit_char d = ''0123456789'' ! d"

fun show_nat :: "nat \<Rightarrow> string" where
  "show_nat n =
     (if n < 10 then [digit_char n] else show_nat (n div 10) @ [digit_char (n mod 10)])"

declare show_nat.simps [simp del]

text \<open>\<^verbatim>\<open>function edgeKey(a,b){ return a<b?`${a}-${b}`:`${b}-${a}`; }\<close>\<close>

definition edgeKey :: "nat \<Rightarrow> nat \<Rightarrow> string" where
  "edgeKey a b =
     (if a < b then show_nat a @ ''-'' @ show_nat b else show_nat b @ ''-'' @ show_nat a)"

text \<open>\<^verbatim>\<open>function distance(a,b){ const dx=a.x-b.x, dy=a.y-b.y; return Math.hypot(dx,dy); }\<close>\<close>

definition distance :: "city \<Rightarrow> city \<Rightarrow> real" where
  "distance a b = (let dx = pos_x a - pos_x b; dy = pos_y a - pos_y b in sqrt (dx\<^sup>2 + dy\<^sup>2))"

subsection \<open>Initialisation and reset\<close>

text \<open>The two nested loops of \<^verbatim>\<open>initPheromones\<close>, over \<open>i < n\<close> and \<open>i < j < n\<close>, starting
  from the empty object.\<close>

definition initPheromones :: "city list \<Rightarrow> pheromones" where
  "initPheromones cs =
     fold (\<lambda>i ph. fold (\<lambda>j ph'. ph'(edgeKey i j \<mapsto> 1)) [i + 1 ..< length cs] ph)
       [0 ..< length cs] Map.empty"

text \<open>\<^verbatim>\<open>resetModel\<close>: the counter, the best record and the pheromones; the cities stay.\<close>

definition resetModel :: "model \<Rightarrow> model" where
  "resetModel m = m\<lparr>iter := 0, bestDist := None, bestTour := None, pher := Map.empty\<rparr>"

text \<open>\<^verbatim>\<open>randomizeCities\<close>: the new cities are drawn outside the model and passed in.\<close>

definition randomizeCities :: "city list \<Rightarrow> model \<Rightarrow> model" where
  "randomizeCities cs m = m\<lparr>cities := cs, pher := initPheromones cs\<rparr>"

subsection \<open>Tour construction\<close>

text \<open>\<^verbatim>\<open>Math.max(pher[key]||0.0001, 1e-6)\<close>: an absent key and a stored zero are both falsy.\<close>

definition tau_of :: "pheromones \<Rightarrow> string \<Rightarrow> real" where
  "tau_of ph key =
     max (case ph key of None \<Rightarrow> 0.0001 | Some v \<Rightarrow> if v = 0 then 0.0001 else v) 0.000001"

text \<open>The body of the candidate loop: \<^verbatim>\<open>tau\<close>, \<^verbatim>\<open>eta\<close> and \<^verbatim>\<open>val\<close>. In exact
  arithmetic: both bases of \<^verbatim>\<open>Math.pow\<close> are positive, where it is the real power.\<close>

definition desirability :: "city list \<Rightarrow> pheromones \<Rightarrow> params \<Rightarrow> nat \<Rightarrow> nat \<Rightarrow> real" where
  "desirability cs ph p cur j =
     (let key = edgeKey cur j;
          tau = tau_of ph key;
          eta = 1 / (distance (cs ! cur) (cs ! j) + 0.000001)
      in (tau powr alpha p) * (eta powr beta p))"

text \<open>\<^verbatim>\<open>for(let j=0;j<n;j++){ if(visited.has(j)) continue; ... probs.push({j, val}); denom += val; }\<close>
  over the remaining values of \<open>j\<close>. Reading \<^verbatim>\<open>cities[cur].x\<close> with \<open>cur\<close> out of range
  throws.\<close>

fun candidates :: "city list \<Rightarrow> pheromones \<Rightarrow> params \<Rightarrow> nat fset \<Rightarrow> nat \<Rightarrow> nat list
    \<Rightarrow> cand list \<times> real \<Rightarrow> error + cand list \<times> real" where
  "candidates cs ph p visited cur [] acc = Inr acc"
| "candidates cs ph p visited cur (j # js) (probs, denom) =
     (if j |\<in>| visited then candidates cs ph p visited cur js (probs, denom)
      else if \<not> cur < length cs then Inl TypeError
      else let v = desirability cs ph p cur j
           in candidates cs ph p visited cur js
                (probs @ [\<lparr>cand_j = j, cand_val = v\<rparr>], denom + v))"

text \<open>\<^verbatim>\<open>for(const p of probs){ r -= p.val; if(r <= 0){ chosen = p.j; break; } }\<close> with the
  value \<^verbatim>\<open>chosen\<close> had before the loop.\<close>

fun roulette :: "cand list \<Rightarrow> real \<Rightarrow> nat \<Rightarrow> nat" where
  "roulette [] r chosen = chosen"
| "roulette (c # cands) r chosen =
     (let r' = r - cand_val c in if r' \<le> 0 then cand_j c else roulette cands r' chosen)"

text \<open>One pass of the body of \<^verbatim>\<open>while(visited.size < n)\<close>: the candidates, the draw
  \<^verbatim>\<open>Math.random() * denom\<close>, \<^verbatim>\<open>let chosen = probs[0].j\<close> and the roulette loop.\<close>

definition select_next :: "city list \<Rightarrow> pheromones \<Rightarrow> params \<Rightarrow> real \<Rightarrow> nat fset \<Rightarrow> nat
    \<Rightarrow> error + nat" where
  "select_next cs ph p u visited cur =
     (case candidates cs ph p visited cur [0 ..< length cs] ([], 0) of
        Inl e \<Rightarrow> Inl e
      | Inr (probs, denom) \<Rightarrow>
          (case probs of
             [] \<Rightarrow> Inl TypeError
           | c0 # _ \<Rightarrow> Inr (roulette probs (u * denom) (cand_j c0))))"

text \<open>The chosen city is never one already visited: this is what makes the loop end.\<close>

lemma roulette_mem: "roulette cands r ch = ch \<or> roulette cands r ch \<in> cand_j ` set cands"
  by (induction cands arbitrary: r) (auto simp: Let_def)

lemma candidates_acc:
  "candidates cs ph p visited cur js (probs, denom) = Inr (probs', denom') \<Longrightarrow>
   \<forall>c \<in> set probs. cand_j c |\<notin>| visited \<Longrightarrow> \<forall>c \<in> set probs'. cand_j c |\<notin>| visited"
  by (induction js arbitrary: probs denom) (auto simp: Let_def split: if_splits)

lemma select_next_fresh:
  assumes "select_next cs ph p u visited cur = Inr ch"
  shows "ch |\<notin>| visited"
proof -
  from assms obtain probs denom c0 rest where
    c: "candidates cs ph p visited cur [0 ..< length cs] ([], 0) = Inr (probs, denom)"
    and pr: "probs = c0 # rest" and ch: "ch = roulette probs (u * denom) (cand_j c0)"
    by (auto simp: select_next_def split: sum.splits list.splits)
  from candidates_acc [OF c] have fresh: "\<forall>c \<in> set probs. cand_j c |\<notin>| visited" by simp
  from roulette_mem [of probs "u * denom" "cand_j c0"] pr
  have "ch \<in> cand_j ` set probs" unfolding ch by auto
  with fresh show ?thesis by auto
qed

text \<open>\<^verbatim>\<open>while(visited.size < n){ ...; visited.add(chosen); tour.push(chosen); cur = chosen; }\<close>
  The result is the tour and the position reached in the random stream.\<close>

function walk :: "city list \<Rightarrow> pheromones \<Rightarrow> params \<Rightarrow> (nat \<Rightarrow> real) \<Rightarrow> nat \<Rightarrow> nat fset
    \<Rightarrow> nat list \<Rightarrow> nat \<Rightarrow> error + nat list \<times> nat" where
  "walk cs ph p rnd i visited tour cur =
     (if fcard visited < length cs then
        (case select_next cs ph p (rnd i) visited cur of
           Inl e \<Rightarrow> Inl e
         | Inr chosen \<Rightarrow>
             walk cs ph p rnd (i + 1) (finsert chosen visited) (tour @ [chosen]) chosen)
      else Inr (tour, i))"
  by pat_completeness auto
termination
proof (relation "measure (\<lambda>(cs, ph, p, rnd, i, visited, tour, cur). length cs - fcard visited)")
  show "wf (measure (\<lambda>(cs, ph, p, rnd, i, visited, tour, cur). length cs - fcard visited))"
    by simp
next
  fix cs :: "city list" and ph :: pheromones and p :: params and rnd :: "nat \<Rightarrow> real"
    and i :: nat and visited :: "nat fset" and tour :: "nat list" and cur chosen :: nat
  assume lt: "fcard visited < length cs"
    and sel: "select_next cs ph p (rnd i) visited cur = Inr chosen"
  from select_next_fresh [OF sel] have "fcard (finsert chosen visited) = Suc (fcard visited)"
    by (simp add: fcard_finsert_disjoint)
  with lt show "((cs, ph, p, rnd, i + 1, finsert chosen visited, tour @ [chosen], chosen),
      (cs, ph, p, rnd, i, visited, tour, cur))
    \<in> measure (\<lambda>(cs, ph, p, rnd, i, visited, tour, cur). length cs - fcard visited)"
    by simp
qed

declare walk.simps [simp del]

text \<open>\<^verbatim>\<open>let D=0; for(let t=0;t<tour.length-1;t++) D += distance(cities[tour[t]], cities[tour[t+1]]);\<close>\<close>

fun tourLength :: "city list \<Rightarrow> nat list \<Rightarrow> real \<Rightarrow> real" where
  "tourLength cs (a # b # rest) D = tourLength cs (b # rest) (D + distance (cs ! a) (cs ! b))"
| "tourLength cs [a] D = D"
| "tourLength cs [] D = D"

text \<open>The body of the loop over the ants: the start \<^verbatim>\<open>Math.floor(Math.random()*n)\<close>, the
  walk, \<^verbatim>\<open>tour.push(start)\<close> and the length. It returns the tour, its length and the
  position in the random stream.\<close>

definition ant :: "city list \<Rightarrow> pheromones \<Rightarrow> params \<Rightarrow> (nat \<Rightarrow> real) \<Rightarrow> nat
    \<Rightarrow> error + nat list \<times> real \<times> nat" where
  "ant cs ph p rnd i =
     (let n = length cs;
          start = nat \<lfloor>rnd i * real n\<rfloor>
      in case walk cs ph p rnd (i + 1) {|start|} [start] start of
           Inl e \<Rightarrow> Inl e
         | Inr (tour, i') \<Rightarrow>
             (let tour' = tour @ [start] in Inr (tour', tourLength cs tour' 0, i')))"

text \<open>\<^verbatim>\<open>for(let k=0;k<params.ants;k++){ ...; tours.push(tour); tourD.push(D); }\<close> with the
  number of passes still to make.\<close>

fun ants_loop :: "city list \<Rightarrow> pheromones \<Rightarrow> params \<Rightarrow> (nat \<Rightarrow> real) \<Rightarrow> nat \<Rightarrow> nat
    \<Rightarrow> nat list list \<times> real list \<Rightarrow> error + nat list list \<times> real list \<times> nat" where
  "ants_loop cs ph p rnd 0 i (tours, tourD) = Inr (tours, tourD, i)"
| "ants_loop cs ph p rnd (Suc k) i (tours, tourD) =
     (case ant cs ph p rnd i of
        Inl e \<Rightarrow> Inl e
      | Inr (tour, D, i') \<Rightarrow> ants_loop cs ph p rnd k i' (tours @ [tour], tourD @ [D]))"

subsection \<open>Evaporation, deposit and the best record\<close>

text \<open>\<^verbatim>\<open>for(const k in pher) pher[k] *= (1 - params.rho);\<close>\<close>

definition evaporate :: "real \<Rightarrow> pheromones \<Rightarrow> pheromones" where
  "evaporate r ph = (\<lambda>k. map_option (\<lambda>v. v * (1 - r)) (ph k))"

text \<open>\<^verbatim>\<open>for(let i=0;i<t.length-1;i++){ const k = edgeKey(t[i], t[i+1]); pher[k] = (pher[k] || 0) + delta; }\<close>\<close>

fun deposit :: "nat list \<Rightarrow> real \<Rightarrow> pheromones \<Rightarrow> pheromones" where
  "deposit (a # b # rest) delta ph =
     deposit (b # rest) delta
       (ph(edgeKey a b \<mapsto> (case ph (edgeKey a b) of None \<Rightarrow> 0 | Some v \<Rightarrow> v) + delta))"
| "deposit [a] delta ph = ph"
| "deposit [] delta ph = ph"

text \<open>\<^verbatim>\<open>D < bestDist\<close>, where \<^verbatim>\<open>bestDist\<close> may be \<^verbatim>\<open>Infinity\<close>.\<close>

definition improves :: "real \<Rightarrow> real option \<Rightarrow> bool" where
  "improves D best = (case best of None \<Rightarrow> True | Some b \<Rightarrow> D < b)"

text \<open>The body of the loop over \<^verbatim>\<open>tours\<close>: the deposit of \<^verbatim>\<open>1 / (D + 1e-6)\<close> along the tour and
  \<^verbatim>\<open>if(D < bestDist){ bestDist = D; bestTour = t.slice(); }\<close>.\<close>

definition deposit_step :: "nat list \<times> real \<Rightarrow> model \<Rightarrow> model" where
  "deposit_step tD m =
     (let t = fst tD; D = snd tD;
          delta = 1 / (D + 0.000001);
          m' = m\<lparr>pher := deposit t delta (pher m)\<rparr>
      in if improves D (bestDist m') then m'\<lparr>bestDist := Some D, bestTour := Some t\<rparr> else m')"

text \<open>\<^verbatim>\<open>for(let a=0;a<tours.length;a++){ const t = tours[a], D = tourD[a]; ... }\<close>\<close>

definition deposit_loop :: "nat list list \<Rightarrow> real list \<Rightarrow> model \<Rightarrow> model" where
  "deposit_loop tours tourD m = fold deposit_step (zip tours tourD) m"

subsection \<open>One iteration\<close>

text \<open>\<^verbatim>\<open>runIteration\<close>, with the parameters already parsed and the random stream at position
  \<open>i\<close>. A TypeError thrown while the tours are built leaves the globals as they were.\<close>

definition runIteration :: "params \<Rightarrow> (nat \<Rightarrow> real) \<Rightarrow> nat \<Rightarrow> model \<Rightarrow> error + model \<times> nat" where
  "runIteration p rnd i m =
     (if length (cities m) < 2 then Inr (m, i)
      else case ants_loop (cities m) (pher m) p rnd (nat (ants p)) i ([], []) of
             Inl e \<Rightarrow> Inl e
           | Inr (tours, tourD, i') \<Rightarrow>
               (let m1 = m\<lparr>pher := evaporate (rho p) (pher m)\<rparr>;
                    m2 = deposit_loop tours tourD m1
                in Inr (m2\<lparr>iter := iter m2 + 1\<rparr>, i')))"

subsection \<open>Editing the city set\<close>

text \<open>The search of the click handler,
  \<^verbatim>\<open>for(let i=cities.length-1;i>=0;i--){ if(Math.hypot(c.x - x, c.y - y) < 10) ... }\<close>,
  with \<open>k = i + 1\<close>.\<close>

fun click_hit :: "real \<Rightarrow> real \<Rightarrow> city list \<Rightarrow> nat \<Rightarrow> nat option" where
  "click_hit px py cs 0 = None"
| "click_hit px py cs (Suc i) =
     (if sqrt ((pos_x (cs ! i) - px)\<^sup>2 + (pos_y (cs ! i) - py)\<^sup>2) < 10 then Some i
      else click_hit px py cs i)"

text \<open>The click handler: \<^verbatim>\<open>cities.splice(i,1); initPheromones();\<close> on a hit, otherwise
  \<^verbatim>\<open>cities.push({x,y}); initPheromones();\<close>.\<close>

definition canvas_click :: "real \<Rightarrow> real \<Rightarrow> model \<Rightarrow> model" where
  "canvas_click px py m =
     (case click_hit px py (cities m) (length (cities m)) of
        Some i \<Rightarrow>
          (let cs = take i (cities m) @ drop (Suc i) (cities m)
           in m\<lparr>cities := cs, pher := initPheromones cs\<rparr>)
      | None \<Rightarrow>
          (let cs = cities m @ [\<lparr>pos_x = px, pos_y = py\<rparr>]
           in m\<lparr>cities := cs, pher := initPheromones cs\<rparr>))"

text \<open>The array reads of \<^verbatim>\<open>drawTour\<close>:
  \<^verbatim>\<open>const a = cities[tour[i]], b = cities[tour[i+1]]; if(i===0) ctx.moveTo(a.x,a.y); ctx.lineTo(b.x,b.y);\<close>
  Reading \<^verbatim>\<open>.x\<close> of a city that is not there throws. The flag says whether \<open>i = 0\<close>.\<close>

fun drawSegments :: "city list \<Rightarrow> bool \<Rightarrow> nat list \<Rightarrow> error + unit" where
  "drawSegments cs first (a # b # rest) =
     (if (first \<and> \<not> a < length cs) \<or> \<not> b < length cs then Inl TypeError
      else drawSegments cs False (b # rest))"
| "drawSegments cs first [a] = Inr ()"
| "drawSegments cs first [] = Inr ()"

definition drawTour :: "city list \<Rightarrow> nat list \<Rightarrow> error + unit" where
  "drawTour cs tour = drawSegments cs True tour"

text \<open>What \<^verbatim>\<open>redrawAll\<close>, which the click handler calls last, reads of the model:
  \<^verbatim>\<open>if(bestTour) drawTour(bestTour, ...)\<close>. The edges and cities it draws before are read
  in range.\<close>

definition redrawAll :: "model \<Rightarrow> error + unit" where
  "redrawAll m = (case bestTour m of None \<Rightarrow> Inr () | Some t \<Rightarrow> drawTour (cities m) t)"

subsection \<open>Double-precision numbers\<close>

text \<open>A JavaScript number: a finite double, an infinity or \<^verbatim>\<open>NaN\<close>. The two zeros are the
  one value \<open>Fin 0\<close>: the sign of a zero shows only when something is divided by it or
  it is raised to a power, and neither the divisor \<^verbatim>\<open>distance(...) + 1e-6\<close> nor a base
  of \<^verbatim>\<open>Math.pow\<close> in the selection is a negative zero.\<close>

datatype num = Fin real | PInf | NInf | NaN

text \<open>Rounding to the nearest integer, a tie to the even one.\<close>

definition round_even :: "real \<Rightarrow> int" where
  "round_even z =
     (let f = \<lfloor>z\<rfloor>; d = z - of_int f
      in if d < 1/2 then f else if 1/2 < d then f + 1 else if even f then f else f + 1)"

text \<open>Rounding a real number to a double. The binary exponent \<open>e\<close> of \<open>x\<close>, not below the
  exponent \<open>-1022\<close> of the subnormal numbers, gives the spacing \<open>q = 2^(e - 52)\<close> of
  the doubles around \<open>x\<close>; \<open>x\<close> is rounded to a multiple of \<open>q\<close>, and a result of magnitude
  \<open>2^1024\<close> or more is an infinity.\<close>

definition fl :: "real \<Rightarrow> num" where
  "fl x =
     (if x = 0 then Fin 0
      else let e = max \<lfloor>log 2 \<bar>x\<bar>\<rfloor> (- 1022);
               q = 2 powr (of_int e - 52);
               y = of_int (round_even (x / q)) * q
           in if 2 powr 1024 \<le> y then PInf else if y \<le> - (2 powr 1024) then NInf else Fin y)"

text \<open>The operators \<^verbatim>\<open>-x\<close>, \<^verbatim>\<open>+\<close>, \<^verbatim>\<open>-\<close>, \<^verbatim>\<open>*\<close> and \<^verbatim>\<open>/\<close>: the exact result rounded, and the
  IEEE rules for the infinities and \<^verbatim>\<open>NaN\<close>.\<close>

fun num_neg :: "num \<Rightarrow> num" where
  "num_neg (Fin x) = Fin (- x)"
| "num_neg PInf = NInf"
| "num_neg NInf = PInf"
| "num_neg NaN = NaN"

fun num_add :: "num \<Rightarrow> num \<Rightarrow> num" where
  "num_add NaN b = NaN"
| "num_add a NaN = NaN"
| "num_add PInf NInf = NaN"
| "num_add NInf PInf = NaN"
| "num_add PInf b = PInf"
| "num_add a PInf = PInf"
| "num_add NInf b = NInf"
| "num_add a NInf = NInf"
| "num_add (Fin x) (Fin y) = fl (x + y)"

definition num_sub :: "num \<Rightarrow> num \<Rightarrow> num" where
  "num_sub a b = num_add a (num_neg b)"

fun num_mul :: "num \<Rightarrow> num \<Rightarrow> num" where
  "num_mul NaN b = NaN"
| "num_mul a NaN = NaN"
| "num_mul (Fin x) (Fin y) = fl (x * y)"
| "num_mul (Fin x) PInf = (if x = 0 then NaN else if 0 < x then PInf else NInf)"
| "num_mul (Fin x) NInf = (if x = 0 then NaN else if 0 < x then NInf else PInf)"
| "num_mul PInf (Fin y) = (if y = 0 then NaN else if 0 < y then PInf else NInf)"
| "num_mul NInf (Fin y) = (if y = 0 then NaN else if 0 < y then NInf else PInf)"
| "num_mul PInf PInf = PInf"
| "num_mul PInf NInf = NInf"
| "num_mul NInf PInf = NInf"
| "num_mul NInf NInf = PInf"

fun num_div :: "num \<Rightarrow> num \<Rightarrow> num" where
  "num_div NaN b = NaN"
| "num_div a NaN = NaN"
| "num_div (Fin x) (Fin y) =
     (if y = 0 then (if x = 0 then NaN else if 0 < x then PInf else NInf) else fl (x / y))"
| "num_div (Fin x) PInf = Fin 0"
| "num_div (Fin x) NInf = Fin 0"
| "num_div PInf (Fin y) = (if 0 \<le> y then PInf else NInf)"
| "num_div NInf (Fin y) = (if 0 \<le> y then NInf else PInf)"
| "num_div PInf PInf = NaN"
| "num_div PInf NInf = NaN"
| "num_div NInf PInf = NaN"
| "num_div NInf NInf = NaN"

text \<open>The test \<^verbatim>\<open>r <= 0\<close>: false on \<^verbatim>\<open>NaN\<close>.\<close>

fun num_le0 :: "num \<Rightarrow> bool" where
  "num_le0 (Fin x) = (x \<le> 0)"
| "num_le0 NInf = True"
| "num_le0 PInf = False"
| "num_le0 NaN = False"

text \<open>\<^verbatim>\<open>Math.max\<close> of two numbers: \<^verbatim>\<open>NaN\<close> if either is.\<close>

fun num_max :: "num \<Rightarrow> num \<Rightarrow> num" where
  "num_max NaN b = NaN"
| "num_max a NaN = NaN"
| "num_max PInf b = PInf"
| "num_max a PInf = PInf"
| "num_max NInf b = b"
| "num_max a NInf = a"
| "num_max (Fin x) (Fin y) = Fin (max x y)"

text \<open>\<^verbatim>\<open>v || c\<close> on the value of a property read: \<^verbatim>\<open>undefined\<close>, a zero and \<^verbatim>\<open>NaN\<close> are
  falsy.\<close>

fun num_or :: "num option \<Rightarrow> num \<Rightarrow> num" where
  "num_or None c = c"
| "num_or (Some NaN) c = c"
| "num_or (Some (Fin x)) c = (if x = 0 then c else Fin x)"
| "num_or (Some v) c = v"

text \<open>Strictly positive: \<^verbatim>\<open>0 < v\<close>.\<close>

fun num_pos :: "num \<Rightarrow> bool" where
  "num_pos (Fin x) = (0 < x)"
| "num_pos PInf = True"
| "num_pos NInf = False"
| "num_pos NaN = False"

subsection \<open>Tour construction in double precision\<close>

text \<open>ECMAScript leaves the precision of \<^verbatim>\<open>Math.pow\<close> and \<^verbatim>\<open>Math.hypot\<close> to the engine.
  They are parameters of the model: a statement for every \<open>lm\<close> holds whatever the engine
  computes.\<close>

record libm =
  m_pow :: "num \<Rightarrow> num \<Rightarrow> num"
  m_hypot :: "num \<Rightarrow> num \<Rightarrow> num"

text \<open>The object \<^verbatim>\<open>pher\<close> and an entry \<^verbatim>\<open>{j, val}\<close> of \<^verbatim>\<open>probs\<close>, over doubles.\<close>

type_synonym dpheromones = "string \<rightharpoonup> num"

record dcand =
  dcand_j :: nat
  dcand_val :: num

text \<open>\<^verbatim>\<open>Math.max(pher[key]||0.0001, 1e-6)\<close>; a decimal literal denotes the nearest double.\<close>

definition tau_d :: "dpheromones \<Rightarrow> string \<Rightarrow> num" where
  "tau_d ph key = num_max (num_or (ph key) (fl (1 / 10000))) (fl (1 / 1000000))"

text \<open>\<^verbatim>\<open>function distance(a,b){ const dx=a.x-b.x, dy=a.y-b.y; return Math.hypot(dx,dy); }\<close>\<close>

definition distance_d :: "libm \<Rightarrow> city \<Rightarrow> city \<Rightarrow> num" where
  "distance_d lm a b =
     (let dx = fl (pos_x a - pos_x b); dy = fl (pos_y a - pos_y b) in m_hypot lm dx dy)"

text \<open>\<^verbatim>\<open>const tau = ...; const eta = 1 / (distance(cities[cur], cities[j]) + 1e-6);
  const val = Math.pow(tau, params.alpha) * Math.pow(eta, params.beta);\<close>\<close>

definition desirability_d :: "libm \<Rightarrow> city list \<Rightarrow> dpheromones \<Rightarrow> params \<Rightarrow> nat \<Rightarrow> nat \<Rightarrow> num" where
  "desirability_d lm cs ph p cur j =
     (let key = edgeKey cur j;
          tau = tau_d ph key;
          eta = num_div (Fin 1) (num_add (distance_d lm (cs ! cur) (cs ! j)) (fl (1 / 1000000)))
      in num_mul (m_pow lm tau (fl (alpha p))) (m_pow lm eta (fl (beta p))))"

text \<open>The candidate loop, with \<^verbatim>\<open>denom += val\<close> rounded at every step.\<close>

fun candidates_d :: "libm \<Rightarrow> city list \<Rightarrow> dpheromones \<Rightarrow> params \<Rightarrow> nat fset \<Rightarrow> nat
    \<Rightarrow> nat list \<Rightarrow> dcand list \<times> num \<Rightarrow> error + dcand list \<times> num" where
  "candidates_d lm cs ph p visited cur [] acc = Inr acc"
| "candidates_d lm cs ph p visited cur (j # js) (probs, denom) =
     (if j |\<in>| visited then candidates_d lm cs ph p visited cur js (probs, denom)
      else if \<not> cur < length cs then Inl TypeError
      else let v = desirability_d lm cs ph p cur j
           in candidates_d lm cs ph p visited cur js
                (probs @ [\<lparr>dcand_j = j, dcand_val = v\<rparr>], num_add denom v))"

text \<open>\<^verbatim>\<open>for(const p of probs){ r -= p.val; if(r <= 0){ chosen = p.j; break; } }\<close> with the
  value \<^verbatim>\<open>chosen\<close> had before the loop.\<close>

fun roulette_d :: "dcand list \<Rightarrow> num \<Rightarrow> nat \<Rightarrow> nat" where
  "roulette_d [] r chosen = chosen"
| "roulette_d (c # cands) r chosen =
     (let r' = num_sub r (dcand_val c)
      in if num_le0 r' then dcand_j c else roulette_d cands r' chosen)"

text \<open>One pass of the body of \<^verbatim>\<open>while(visited.size < n)\<close>: the candidates,
  \<^verbatim>\<open>let r = Math.random() * denom\<close>, \<^verbatim>\<open>let chosen = probs[0].j\<close> and the roulette loop.\<close>

definition select_next_d :: "libm \<Rightarrow> city list \<Rightarrow> dpheromones \<Rightarrow> params \<Rightarrow> real \<Rightarrow> nat fset
    \<Rightarrow> nat \<Rightarrow> error + nat" where
  "select_next_d lm cs ph p u visited cur =
     (case candidates_d lm cs ph p visited cur [0 ..< length cs] ([], Fin 0) of
        Inl e \<Rightarrow> Inl e
      | Inr (probs, denom) \<Rightarrow>
          (case probs of
             [] \<Rightarrow> Inl TypeError
           | c0 # _ \<Rightarrow> Inr (roulette_d probs (num_mul (Fin u) denom) (dcand_j c0))))"

text \<open>Whatever the desirabilities are, the chosen city is one of the candidates.\<close>

lemma roulette_d_mem:
  "roulette_d cands r ch = ch \<or> roulette_d cands r ch \<in> dcand_j ` set cands"
  by (induction cands arbitrary: r) (auto simp: Let_def)

lemma candidates_d_eq:
  "candidates_d lm cs ph p visited cur js (probs, denom) =
     (if filter (\<lambda>j. j |\<notin>| visited) js \<noteq> [] \<and> \<not> cur < length cs then Inl TypeError
      else Inr (probs @ map (\<lambda>j. \<lparr>dcand_j = j, dcand_val = desirability_d lm cs ph p cur j\<rparr>)
                  (filter (\<lambda>j. j |\<notin>| visited) js),
                foldl num_add denom
                  (map (desirability_d lm cs ph p cur) (filter (\<lambda>j. j |\<notin>| visited) js))))"
  by (induction js arbitrary: probs denom) (auto simp: Let_def)

lemma select_next_d_cases:
  "select_next_d lm cs ph p u visited cur =
     (let js = filter (\<lambda>j. j |\<notin>| visited) [0 ..< length cs];
          probs = map (\<lambda>j. \<lparr>dcand_j = j, dcand_val = desirability_d lm cs ph p cur j\<rparr>) js;
          denom = foldl num_add (Fin 0) (map (desirability_d lm cs ph p cur) js)
      in if js = [] \<or> \<not> cur < length cs then Inl TypeError
         else Inr (roulette_d probs (num_mul (Fin u) denom) (dcand_j (hd probs))))"
  by (cases "filter (\<lambda>j. j |\<notin>| visited) [0 ..< length cs]")
    (simp_all add: select_next_d_def candidates_d_eq Let_def)

lemma select_next_d_in:
  assumes "select_next_d lm cs ph p u visited cur = Inr ch"
  shows "ch \<in> set (filter (\<lambda>j. j |\<notin>| visited) [0 ..< length cs])"
proof -
  let ?js = "filter (\<lambda>j. j |\<notin>| visited) [0 ..< length cs]"
  let ?probs = "map (\<lambda>j. \<lparr>dcand_j = j, dcand_val = desirability_d lm cs ph p cur j\<rparr>) ?js"
  let ?r = "num_mul (Fin u) (foldl num_add (Fin 0) (map (desirability_d lm cs ph p cur) ?js))"
  from assms have ne: "?js \<noteq> []"
    and ch: "ch = roulette_d ?probs ?r (dcand_j (hd ?probs))"
    by (auto simp: select_next_d_cases Let_def split: if_splits)
  have img: "dcand_j ` set ?probs = set ?js" by (auto simp: image_iff)
  have pne: "?probs \<noteq> []" using ne by simp
  have hdmem: "dcand_j (hd ?probs) \<in> dcand_j ` set ?probs"
    using pne by (intro imageI hd_in_set)
  have "roulette_d ?probs ?r (dcand_j (hd ?probs)) \<in> dcand_j ` set ?probs"
  proof (cases "roulette_d ?probs ?r (dcand_j (hd ?probs)) = dcand_j (hd ?probs)")
    case True
    show ?thesis unfolding True by (rule hdmem)
  next
    case False
    with roulette_d_mem [of ?probs ?r "dcand_j (hd ?probs)"] show ?thesis by blast
  qed
  then show ?thesis unfolding img ch .
qed

lemma select_next_d_fresh:
  "select_next_d lm cs ph p u visited cur = Inr ch \<Longrightarrow> ch |\<notin>| visited"
  using select_next_d_in by fastforce

text \<open>\<^verbatim>\<open>while(visited.size < n){ ...; visited.add(chosen); tour.push(chosen); cur = chosen; }\<close>\<close>

function walk_d :: "libm \<Rightarrow> city list \<Rightarrow> dpheromones \<Rightarrow> params \<Rightarrow> (nat \<Rightarrow> real) \<Rightarrow> nat
    \<Rightarrow> nat fset \<Rightarrow> nat list \<Rightarrow> nat \<Rightarrow> error + nat list \<times> nat" where
  "walk_d lm cs ph p rnd i visited tour cur =
     (if fcard visited < length cs then
        (case select_next_d lm cs ph p (rnd i) visited cur of
           Inl e \<Rightarrow> Inl e
         | Inr chosen \<Rightarrow>
             walk_d lm cs ph p rnd (i + 1) (finsert chosen visited) (tour @ [chosen]) chosen)
      else Inr (tour, i))"
  by pat_completeness auto
termination
proof (relation "measure (\<lambda>(lm, cs, ph, p, rnd, i, visited, tour, cur). length cs - fcard visited)")
  show "wf (measure (\<lambda>(lm, cs, ph, p, rnd, i, visited, tour, cur). length cs - fcard visited))"
    by simp
next
  fix lm :: libm and cs :: "city list" and ph :: dpheromones and p :: params
    and rnd :: "nat \<Rightarrow> real" and i :: nat and visited :: "nat fset" and tour :: "nat list"
    and cur chosen :: nat
  assume lt: "fcard visited < length cs"
    and sel: "select_next_d lm cs ph p (rnd i) visited cur = Inr chosen"
  from select_next_d_fresh [OF sel] have "fcard (finsert chosen visited) = Suc (fcard visited)"
    by (simp add: fcard_finsert_disjoint)
  with lt show "((lm, cs, ph, p, rnd, i + 1, finsert chosen visited, tour @ [chosen], chosen),
      (lm, cs, ph, p, rnd, i, visited, tour, cur))
    \<in> measure (\<lambda>(lm, cs, ph, p, rnd, i, visited, tour, cur). length cs - fcard visited)"
    by simp
qed

declare walk_d.simps [simp del]

text \<open>\<^verbatim>\<open>const start = Math.floor(Math.random() * n)\<close>. A start that is no index of
  \<^verbatim>\<open>cities\<close> makes the first read \<^verbatim>\<open>cities[cur].x\<close> throw.\<close>

definition start_d :: "real \<Rightarrow> nat \<Rightarrow> error + nat" where
  "start_d u n =
     (case num_mul (Fin u) (Fin (real n)) of
        Fin v \<Rightarrow> if v < 0 then Inl TypeError else Inr (nat \<lfloor>v\<rfloor>)
      | _ \<Rightarrow> Inl TypeError)"

subsection \<open>A reference for the library functions\<close>

text \<open>\<^verbatim>\<open>Math.pow\<close> as the case analysis of Number::exponentiate in ECMAScript, with the
  correctly rounded power where the language leaves the result to the engine, and
  \<^verbatim>\<open>Math.hypot\<close> likewise. The examples below use them only where engines agree: an
  exponent 0 (the result is 1 by the language), an exponent 1, a second argument 0 of
  \<^verbatim>\<open>Math.hypot\<close>, and a power far below the smallest double.\<close>

definition integral :: "real \<Rightarrow> bool" where
  "integral y = (y = of_int \<lfloor>y\<rfloor>)"

definition odd_integral :: "real \<Rightarrow> bool" where
  "odd_integral y = (y = of_int \<lfloor>y\<rfloor> \<and> odd \<lfloor>y\<rfloor>)"

fun pow_ref :: "num \<Rightarrow> num \<Rightarrow> num" where
  "pow_ref b NaN = NaN"
| "pow_ref b (Fin y) =
     (if y = 0 then Fin 1
      else case b of
        NaN \<Rightarrow> NaN
      | PInf \<Rightarrow> if 0 < y then PInf else Fin 0
      | NInf \<Rightarrow> if 0 < y then (if odd_integral y then NInf else PInf) else Fin 0
      | Fin x \<Rightarrow>
          if x = 0 then (if 0 < y then Fin 0 else PInf)
          else if x < 0 \<and> \<not> integral y then NaN
          else if x < 0 \<and> odd_integral y then fl (- (\<bar>x\<bar> powr y))
          else fl (\<bar>x\<bar> powr y))"
| "pow_ref b PInf =
     (case b of
        NaN \<Rightarrow> NaN
      | PInf \<Rightarrow> PInf
      | NInf \<Rightarrow> PInf
      | Fin x \<Rightarrow> if 1 < \<bar>x\<bar> then PInf else if \<bar>x\<bar> = 1 then NaN else Fin 0)"
| "pow_ref b NInf =
     (case b of
        NaN \<Rightarrow> NaN
      | PInf \<Rightarrow> Fin 0
      | NInf \<Rightarrow> Fin 0
      | Fin x \<Rightarrow> if 1 < \<bar>x\<bar> then Fin 0 else if \<bar>x\<bar> = 1 then NaN else PInf)"

fun hypot_ref :: "num \<Rightarrow> num \<Rightarrow> num" where
  "hypot_ref PInf b = PInf"
| "hypot_ref NInf b = PInf"
| "hypot_ref a PInf = PInf"
| "hypot_ref a NInf = PInf"
| "hypot_ref NaN b = NaN"
| "hypot_ref a NaN = NaN"
| "hypot_ref (Fin x) (Fin y) = fl (sqrt (x\<^sup>2 + y\<^sup>2))"

definition libm_ref :: libm where
  "libm_ref = \<lparr>m_pow = pow_ref, m_hypot = hypot_ref\<rparr>"

subsection \<open>Example inputs\<close>

text \<open>Two cities at distance 1, freshly initialised, and a random source that always
  draws 0.\<close>

definition ex_cities :: "city list" where
  "ex_cities = [\<lparr>pos_x = 0, pos_y = 0\<rparr>, \<lparr>pos_x = 1, pos_y = 0\<rparr>]"

definition ex_model :: model where
  "ex_model = \<lparr>cities = ex_cities, pher = initPheromones ex_cities, iter = 0,
     bestDist = None, bestTour = None\<rparr>"

definition rnd_zero :: "nat \<Rightarrow> real" where
  "rnd_zero i = 0"

text \<open>Three cities on a line, with the record one iteration leaves: every tour of these
  cities has length 200.\<close>

definition ex_model3 :: model where
  "ex_model3 = \<lparr>cities = ex_cities @ [\<lparr>pos_x = 100, pos_y = 0\<rparr>],
     pher = initPheromones (ex_cities @ [\<lparr>pos_x = 100, pos_y = 0\<rparr>]), iter = 1,
     bestDist = Some 200, bestTour = Some [0, 1, 2, 0]\<rparr>"

text \<open>The store \<^verbatim>\<open>initPheromones\<close> leaves, over doubles: every level is the double 1.\<close>

definition fresh_d :: "city list \<Rightarrow> dpheromones" where
  "fresh_d cs = (\<lambda>k. map_option Fin (initPheromones cs k))"

text \<open>Four cities on a horizontal line, as four clicks on the canvas place them. From
  city 0 the others are at distances 90, 120 and 40.\<close>

definition ex_line :: "city list" where
  "ex_line = [\<lparr>pos_x = 310, pos_y = 40\<rparr>, \<lparr>pos_x = 220, pos_y = 40\<rparr>,
     \<lparr>pos_x = 430, pos_y = 40\<rparr>, \<lparr>pos_x = 270, pos_y = 40\<rparr>]"

text \<open>Two cities at distance 100.\<close>

definition ex_far :: "city list" where
  "ex_far = [\<lparr>pos_x = 40, pos_y = 40\<rparr>, \<lparr>pos_x = 140, pos_y = 40\<rparr>]"

text \<open>The doubles that the selection from city 0 of \<open>ex_line\<close> computes with
  \<^verbatim>\<open>alpha = 0\<close> and \<^verbatim>\<open>beta = 1\<close>, each as an integer multiple of a power of two:
  \<open>ex_eps\<close> is the literal \<^verbatim>\<open>1e-6\<close>; \<open>ex_s1\<close>, \<open>ex_s2\<close>, \<open>ex_s3\<close> are the sums
  \<^verbatim>\<open>distance + 1e-6\<close>; \<open>ex_v1\<close>, \<open>ex_v2\<close>, \<open>ex_v3\<close> their inverses, the desirabilities;
  \<open>ex_d2\<close> and \<open>ex_denom\<close> the running \<^verbatim>\<open>denom\<close>. With the draw \<open>ex_u\<close>, the largest
  multiple of \<open>2^-52\<close> below 1, \<open>ex_r0\<close> is \<^verbatim>\<open>Math.random() * denom\<close> and \<open>ex_r1\<close>,
  \<open>ex_r2\<close>, \<open>ex_r3\<close> are the remainders; with the draw \<open>ex_q\<close> they are \<open>ex_h0\<close>, \<open>ex_h1\<close>
  and \<open>ex_h2\<close>. For \<open>ex_far\<close>, \<open>ex_t\<close> is \<^verbatim>\<open>distance + 1e-6\<close> and \<open>ex_w\<close> its inverse.\<close>

definition ex_eps :: real where
  "ex_eps = 4722366482869645 / 2 ^ 72"

definition ex_u :: real where
  "ex_u = 1 - 1 / 2 ^ 52"

definition ex_s1 :: real where
  "ex_s1 = 6333187046358504 / 2 ^ 46"

definition ex_s2 :: real where
  "ex_s2 = 8444249371688424 / 2 ^ 46"

definition ex_s3 :: real where
  "ex_s3 = 5629499674950608 / 2 ^ 47"

definition ex_v1 :: real where
  "ex_v1 = 6405119398870046 / 2 ^ 59"

definition ex_v2 :: real where
  "ex_v2 = 4803839562496533 / 2 ^ 59"

definition ex_v3 :: real where
  "ex_v3 = 7205759223648813 / 2 ^ 58"

definition ex_d2 :: real where
  "ex_d2 = 5604479480683290 / 2 ^ 58"

definition ex_denom :: real where
  "ex_denom = 6405119352166052 / 2 ^ 57"

definition ex_r0 :: real where
  "ex_r0 = 6405119352166051 / 2 ^ 57"

definition ex_r1 :: real where
  "ex_r1 = 4803839502448540 / 2 ^ 57"

definition ex_r2 :: real where
  "ex_r2 = 7205759223648814 / 2 ^ 58"

definition ex_r3 :: real where
  "ex_r3 = 4503599627370496 / 2 ^ 110"

definition ex_q :: real where
  "ex_q = 3 / 8"

definition ex_h0 :: real where
  "ex_h0 = 4803839514124539 / 2 ^ 58"

definition ex_h1 :: real where
  "ex_h1 = 6405119258758064 / 2 ^ 60"

definition ex_h2 :: real where
  "ex_h2 = - 6405119732470004 / 2 ^ 61"

definition ex_t :: real where
  "ex_t = 7036874488135144 / 2 ^ 46"

definition ex_w :: real where
  "ex_w = 5764607465388160 / 2 ^ 59"

text \<open>The candidates from city 0 of \<open>ex_line\<close>.\<close>

definition ex_probs_d :: "dcand list" where
  "ex_probs_d = [\<lparr>dcand_j = 1, dcand_val = Fin ex_v1\<rparr>, \<lparr>dcand_j = 2, dcand_val = Fin ex_v2\<rparr>,
     \<lparr>dcand_j = 3, dcand_val = Fin ex_v3\<rparr>]"

subsection \<open>Notions used in the statements\<close>


text \<open>A closed tour over \<open>n\<close> cities: \<open>n + 1\<close> entries, the same city first and last, and
  every index below \<open>n\<close> exactly once before the closing entry.\<close>

definition hamiltonian_cycle :: "nat \<Rightarrow> nat list \<Rightarrow> bool" where
  "hamiltonian_cycle n t =
     (length t = n + 1 \<and> hd t = last t \<and> distinct (butlast t) \<and> set (butlast t) = {..<n})"

text \<open>The animation loop calls \<^verbatim>\<open>runIteration\<close> once per tick, each time with the parameters
  the sliders then hold; an exception ends the sequence.\<close>

fun run_iterations :: "params list \<Rightarrow> (nat \<Rightarrow> real) \<Rightarrow> nat \<Rightarrow> model \<Rightarrow> error + model \<times> nat" where
  "run_iterations [] rnd i m = Inr (m, i)"
| "run_iterations (p # ps) rnd i m =
     (case runIteration p rnd i m of
        Inl e \<Rightarrow> Inl e
      | Inr (m', i') \<Rightarrow> run_iterations ps rnd i' m')"

text \<open>The order on best lengths, with \<open>None\<close> (no tour yet, \<^verbatim>\<open>Infinity\<close>) on top.\<close>

definition best_le :: "real option \<Rightarrow> real option \<Rightarrow> bool" where
  "best_le a b =
     (case b of None \<Rightarrow> True | Some y \<Rightarrow> (case a of None \<Rightarrow> False | Some x \<Rightarrow> x \<le> y))"


text \<open>The state one iteration with one ant leaves from \<open>ex_model\<close>: the only tour is
  \<open>[0, 1, 0]\<close> of length 2, the level of the edge is halved and then receives
  \<open>1 / (2 + 1e-6)\<close> twice.\<close>

definition ex_after :: model where
  "ex_after = \<lparr>cities = ex_cities, pher = [''0-1'' \<mapsto> 1/2 + 2000000/2000001], iter = 1,
     bestDist = Some 2, bestTour = Some [0, 1, 0]\<rparr>"

text \<open>The unordered pairs of distinct city indices below \<open>n\<close>, smaller index first.\<close>

definition edge_pairs :: "nat \<Rightarrow> (nat \<times> nat) set" where
  "edge_pairs n = {(i, j). i < j \<and> j < n}"

text \<open>The values \<^verbatim>\<open>r\<close> takes in the roulette loop, one after each \<^verbatim>\<open>r -= p.val\<close>, when no
  \<^verbatim>\<open>break\<close> cuts the loop short.\<close>

fun remainders_d :: "dcand list \<Rightarrow> num \<Rightarrow> num list" where
  "remainders_d [] r = []"
| "remainders_d (c # cands) r =
     num_sub r (dcand_val c) # remainders_d cands (num_sub r (dcand_val c))"

section \<open>Auxiliary facts\<close>

lemma init_ex: "initPheromones ex_cities = [''0-1'' \<mapsto> 1]"
  by (simp add: initPheromones_def ex_cities_def upt_rec edgeKey_def show_nat.simps
      digit_char_def)

lemma length_ex: "length (cities ex_model) = 2"
  by (simp add: ex_model_def ex_cities_def)

lemma pher_ex: "pher ex_model = [''0-1'' \<mapsto> 1]"
  by (simp add: ex_model_def init_ex)

lemma candidates_eq:
  "candidates cs ph p visited cur js (probs, denom) =
     (if filter (\<lambda>j. j |\<notin>| visited) js \<noteq> [] \<and> \<not> cur < length cs then Inl TypeError
      else Inr (probs @ map (\<lambda>j. \<lparr>cand_j = j, cand_val = desirability cs ph p cur j\<rparr>)
                  (filter (\<lambda>j. j |\<notin>| visited) js),
                denom + sum_list (map (desirability cs ph p cur) (filter (\<lambda>j. j |\<notin>| visited) js))))"
  by (induction js arbitrary: probs denom) (auto simp: Let_def)

lemma distance_nonneg: "0 \<le> distance a b"
  by (simp add: distance_def Let_def)

lemma cand_ex: "candidates ex_cities (pher ex_model) \<lparr>alpha = 1, beta = 2, rho = 1/2, ants = 1\<rparr>
       {|0|} 0 [0 ..< length ex_cities] ([], 0) =
     Inr ([\<lparr>cand_j = 1, cand_val = desirability ex_cities (pher ex_model)
              \<lparr>alpha = 1, beta = 2, rho = 1/2, ants = 1\<rparr> 0 1\<rparr>],
          desirability ex_cities (pher ex_model) \<lparr>alpha = 1, beta = 2, rho = 1/2, ants = 1\<rparr> 0 1)"
  by (simp add: candidates_eq ex_cities_def upt_rec)

lemma init_ex3: "pher ex_model3 = [''0-1'' \<mapsto> 1, ''0-2'' \<mapsto> 1, ''1-2'' \<mapsto> 1]"
  by (simp add: ex_model3_def initPheromones_def ex_cities_def upt_rec edgeKey_def show_nat.simps
      digit_char_def)

lemma unvisited_nonempty:
  assumes sub: "fset visited \<subseteq> {..<n}" and lt: "fcard visited < n"
  shows "filter (\<lambda>j. j |\<notin>| visited) [0 ..< n] \<noteq> []"
proof
  assume "filter (\<lambda>j. j |\<notin>| visited) [0 ..< n] = []"
  then have "\<forall>j<n. j |\<in>| visited" by (auto simp: filter_empty_conv)
  then have "{..<n} \<subseteq> fset visited" by auto
  with sub have "fset visited = {..<n}" by auto
  then have "fcard visited = n" by (simp add: fcard.rep_eq)
  with lt show False by simp
qed

lemma select_next_ok:
  assumes cur: "cur < length cs" and sub: "fset visited \<subseteq> {..<length cs}"
    and lt: "fcard visited < length cs"
  shows "\<exists>chosen. select_next cs ph p u visited cur = Inr chosen \<and> chosen < length cs \<and>
    chosen |\<notin>| visited"
proof -
  let ?js = "filter (\<lambda>j. j |\<notin>| visited) [0 ..< length cs]"
  let ?probs = "map (\<lambda>j. \<lparr>cand_j = j, cand_val = desirability cs ph p cur j\<rparr>) ?js"
  let ?denom = "sum_list (map (desirability cs ph p cur) ?js)"
  have ne: "?js \<noteq> []" using unvisited_nonempty [OF sub lt] .
  have c: "candidates cs ph p visited cur [0 ..< length cs] ([], 0) = Inr (?probs, ?denom)"
    using cur by (simp add: candidates_eq)
  from ne obtain j0 rest where js: "?js = j0 # rest" by (cases ?js) auto
  have sel: "select_next cs ph p u visited cur =
      Inr (roulette ?probs (u * ?denom) (cand_j (hd ?probs)))"
    unfolding select_next_def c by (simp add: js)
  have img: "cand_j ` set ?probs = set ?js" by (auto simp: image_iff)
  have "cand_j (hd ?probs) \<in> set ?js" by (simp add: js)
  with roulette_mem [of ?probs "u * ?denom" "cand_j (hd ?probs)"] img
  have "roulette ?probs (u * ?denom) (cand_j (hd ?probs)) \<in> set ?js" by auto
  then show ?thesis unfolding sel by auto
qed

lemma walk_ok:
  assumes "distinct tour" and "set tour \<subseteq> {..<length cs}" and "visited = fset_of_list tour"
    and "cur < length cs"
  shows "\<exists>tour'. walk cs ph p rnd i visited tour cur = Inr (tour', i + (length cs - length tour)) \<and>
    distinct tour' \<and> set tour' = {..<length cs} \<and> take (length tour) tour' = tour"
  using assms
proof (induction cs ph p rnd i visited tour cur rule: walk.induct)
  case (1 cs ph p rnd i visited tour cur)
  have card: "fcard visited = length tour"
    using "1.prems" by (simp add: fcard.rep_eq fset_of_list.rep_eq distinct_card)
  have sub: "fset visited \<subseteq> {..<length cs}"
    using "1.prems" by (simp add: fset_of_list.rep_eq)
  show ?case
  proof (cases "fcard visited < length cs")
    case True
    from select_next_ok [OF "1.prems"(4) sub True, of ph p "rnd i"]
    obtain chosen where sel: "select_next cs ph p (rnd i) visited cur = Inr chosen"
      and cl: "chosen < length cs" and fresh: "chosen |\<notin>| visited" by blast
    have d: "distinct (tour @ [chosen])"
      using "1.prems" fresh by (simp add: fset_of_list.rep_eq)
    have s: "set (tour @ [chosen]) \<subseteq> {..<length cs}"
      using "1.prems" cl by simp
    have v: "finsert chosen visited = fset_of_list (tour @ [chosen])"
      using "1.prems" by auto
    from "1.IH" [OF True sel d s v cl]
    obtain tour' where w: "walk cs ph p rnd (i + 1) (finsert chosen visited) (tour @ [chosen]) chosen
        = Inr (tour', i + 1 + (length cs - length (tour @ [chosen])))"
      and d': "distinct tour'" and s': "set tour' = {..<length cs}"
      and t': "take (length (tour @ [chosen])) tour' = tour @ [chosen]"
      by blast
    have idx: "i + 1 + (length cs - length (tour @ [chosen])) = i + (length cs - length tour)"
      using True card by simp
    have "walk cs ph p rnd i visited tour cur = Inr (tour', i + (length cs - length tour))"
      using True sel w idx by (simp add: walk.simps [of cs ph p rnd i visited tour cur])
    moreover have "take (length tour) tour' = tour"
    proof -
      have "take (length tour) (take (length (tour @ [chosen])) tour') = take (length tour) tour'"
        by (simp add: min_def)
      then show ?thesis unfolding t' by simp
    qed
    ultimately show ?thesis using d' s' by blast
  next
    case False
    then have ge: "length cs \<le> length tour" using card by simp
    have "card (set tour) = length tour" using "1.prems" by (simp add: distinct_card)
    moreover have "card (set tour) \<le> card {..<length cs}"
      using "1.prems" by (intro card_mono) auto
    ultimately have "card (set tour) = card {..<length cs}" using ge by simp
    then have eq: "set tour = {..<length cs}"
      using "1.prems" by (intro card_subset_eq) auto
    have "walk cs ph p rnd i visited tour cur = Inr (tour, i + (length cs - length tour))"
      using False ge by (simp add: walk.simps [of cs ph p rnd i visited tour cur])
    then show ?thesis using "1.prems" eq by simp
  qed
qed

lemma start_in_range:
  assumes "0 \<le> u" and "u < 1" and "0 < n"
  shows "nat \<lfloor>u * real n\<rfloor> < n"
proof -
  have "u * real n < real n" using assms by simp
  then have "\<lfloor>u * real n\<rfloor> < int n" by (simp add: floor_less_iff)
  then show ?thesis using assms by linarith
qed

lemma ant_ok:
  assumes n: "0 < length cs" and u: "0 \<le> rnd i" "rnd i < 1"
  shows "\<exists>tour. ant cs ph p rnd i = Inr (tour, tourLength cs tour 0, i + length cs) \<and>
    hamiltonian_cycle (length cs) tour"
proof -
  let ?start = "nat \<lfloor>rnd i * real (length cs)\<rfloor>"
  have st: "?start < length cs" using start_in_range [OF u n] .
  from walk_ok [of "[?start]" cs "{|?start|}" ?start ph p rnd "i + 1"] st
  obtain tour where w: "walk cs ph p rnd (i + 1) {|?start|} [?start] ?start =
      Inr (tour, i + 1 + (length cs - length [?start]))"
    and d: "distinct tour" and s: "set tour = {..<length cs}"
    and t: "take (length [?start]) tour = [?start]"
    by auto
  have len: "length tour = length cs"
    using d s by (metis card_lessThan distinct_card)
  have hd: "hd tour = ?start"
    using t len n by (cases tour) auto
  have ne: "tour \<noteq> []" using len n by auto
  have idx: "i + 1 + (length cs - length [?start]) = i + length cs" using n by simp
  have "ant cs ph p rnd i = Inr (tour @ [?start], tourLength cs (tour @ [?start]) 0, i + length cs)"
    using w idx by (simp add: ant_def Let_def)
  moreover have "hamiltonian_cycle (length cs) (tour @ [?start])"
    using d s len hd ne by (simp add: hamiltonian_cycle_def)
  ultimately show ?thesis by blast
qed

lemma ants_loop_ok:
  assumes n: "0 < length cs" and u: "\<forall>k. 0 \<le> rnd k \<and> rnd k < 1"
    and acc: "list_all (hamiltonian_cycle (length cs)) tours"
  shows "\<exists>tours' tourD'. ants_loop cs ph p rnd k i (tours, tourD) =
      Inr (tours', tourD', i + k * length cs) \<and>
    length tours' = length tours + k \<and> length tourD' = length tourD + k \<and>
    list_all (hamiltonian_cycle (length cs)) tours'"
  using acc
proof (induction k arbitrary: i tours tourD)
  case 0
  then show ?case by simp
next
  case (Suc k)
  from ant_ok [OF n, of rnd i ph p] u
  obtain tour where a: "ant cs ph p rnd i = Inr (tour, tourLength cs tour 0, i + length cs)"
    and h: "hamiltonian_cycle (length cs) tour" by blast
  have "list_all (hamiltonian_cycle (length cs)) (tours @ [tour])"
    using Suc.prems h by simp
  from Suc.IH [OF this, of "i + length cs" "tourD @ [tourLength cs tour 0]"]
  obtain tours' tourD' where
    l: "ants_loop cs ph p rnd k (i + length cs) (tours @ [tour], tourD @ [tourLength cs tour 0])
        = Inr (tours', tourD', i + length cs + k * length cs)"
    and r: "length tours' = length (tours @ [tour]) + k"
      "length tourD' = length (tourD @ [tourLength cs tour 0]) + k"
      "list_all (hamiltonian_cycle (length cs)) tours'"
    by blast
  have "ants_loop cs ph p rnd (Suc k) i (tours, tourD) = Inr (tours', tourD', i + Suc k * length cs)"
    using a l by (simp add: add.assoc add.commute)
  with r show ?case by auto
qed

lemma ant_ex: "ant ex_cities (pher ex_model) \<lparr>alpha = 1, beta = 2, rho = 1/2, ants = 1\<rparr> rnd_zero 0
   = Inr ([0, 1, 0], 2, 2)"
proof -
  have s: "select_next ex_cities (pher ex_model) \<lparr>alpha = 1, beta = 2, rho = 1/2, ants = 1\<rparr>
      0 {|0|} 0 = Inr 1"
    unfolding select_next_def cand_ex by (simp add: Let_def)
  have l: "length ex_cities = 2" by (simp add: ex_cities_def)
  have w2: "\<And>i. walk ex_cities (pher ex_model) \<lparr>alpha = 1, beta = 2, rho = 1/2, ants = 1\<rparr>
     rnd_zero i {|1, 0|} [0, 1] 1 = Inr ([0, 1], i)"
    by (subst walk.simps) (simp add: l fcard_finsert_if)
  have w: "walk ex_cities (pher ex_model) \<lparr>alpha = 1, beta = 2, rho = 1/2, ants = 1\<rparr> rnd_zero 1
     {|0|} [0] 0 = Inr ([0, 1], 2)"
    by (subst walk.simps) (simp add: s l fcard_finsert_if rnd_zero_def w2 [simplified])
  have d: "tourLength ex_cities [0, 1, 0] 0 = 2"
    by (simp add: ex_cities_def distance_def)
  show ?thesis
    using w d by (simp add: ant_def Let_def l rnd_zero_def)
qed

lemma init_inner_ones:
  "(\<forall>k v. ph k = Some v \<longrightarrow> v = 1) \<Longrightarrow>
   (\<forall>k v. fold (\<lambda>j ph'. ph'(edgeKey i j \<mapsto> 1)) js ph k = Some v \<longrightarrow> v = (1::real))"
proof (induction js arbitrary: ph)
  case Nil
  then show ?case by simp
next
  case (Cons j js)
  have "\<forall>k v. (ph(edgeKey i j \<mapsto> 1)) k = Some v \<longrightarrow> v = 1"
    using Cons.prems by auto
  from Cons.IH [OF this] show ?case by (simp del: fun_upd_apply)
qed

lemma init_outer_ones:
  "(\<forall>k v. ph k = Some v \<longrightarrow> v = 1) \<Longrightarrow>
   (\<forall>k v. fold (\<lambda>i ph. fold (\<lambda>j ph'. ph'(edgeKey i j \<mapsto> 1)) (f i) ph) is ph k = Some v
      \<longrightarrow> v = (1::real))"
proof (induction "is" arbitrary: ph)
  case Nil
  then show ?case by simp
next
  case (Cons i "is")
  from init_inner_ones [OF Cons.prems, of i "f i"]
  have "\<forall>k v. fold (\<lambda>j ph'. ph'(edgeKey i j \<mapsto> 1)) (f i) ph k = Some v \<longrightarrow> v = 1" .
  from Cons.IH [OF this] show ?case by (simp del: fun_upd_apply)
qed

lemma initPheromones_ones: "initPheromones cs k = Some v \<Longrightarrow> v = 1"
  using init_outer_ones [of Map.empty "\<lambda>i. [i + 1 ..< length cs]" "[0 ..< length cs]"]
  by (simp add: initPheromones_def)




lemma tourLength_nonneg: "0 \<le> D \<Longrightarrow> 0 \<le> tourLength cs t D"
proof (induction cs t D rule: tourLength.induct)
  case (1 cs a b rest D)
  have "0 \<le> D + distance (cs ! a) (cs ! b)"
    using "1.prems" distance_nonneg [of "cs ! a" "cs ! b"] by simp
  from "1.IH" [OF this] show ?case by simp
qed simp_all

lemma ant_length_nonneg: "ant cs ph p rnd i = Inr (t, D, i') \<Longrightarrow> 0 \<le> D"
  using tourLength_nonneg [of 0 cs]
  by (auto simp: ant_def Let_def split: sum.splits)

lemma ants_loop_acc:
  "ants_loop cs ph p rnd k i (tours, tourD) = Inr (tours', tourD', i') \<Longrightarrow>
   length tours = length tourD \<Longrightarrow> \<forall>D \<in> set tourD. 0 \<le> D \<Longrightarrow>
   length tours' = length tourD' \<and> (\<forall>D \<in> set tourD'. 0 \<le> D)"
proof (induction k arbitrary: i tours tourD)
  case 0
  then show ?case by simp
next
  case (Suc k)
  from Suc.prems(1) obtain t D j where a: "ant cs ph p rnd i = Inr (t, D, j)"
    and l: "ants_loop cs ph p rnd k j (tours @ [t], tourD @ [D]) = Inr (tours', tourD', i')"
    by (auto split: sum.splits)
  have "0 \<le> D" using ant_length_nonneg [OF a] .
  with Suc.prems have "length (tours @ [t]) = length (tourD @ [D])"
    and "\<forall>x \<in> set (tourD @ [D]). 0 \<le> x" by auto
  from Suc.IH [OF l this] show ?case .
qed

lemma deposit_step_fields:
  "cities (deposit_step tD m) = cities m" "iter (deposit_step tD m) = iter m"
  "pher (deposit_step tD m) = deposit (fst tD) (1 / (snd tD + 0.000001)) (pher m)"
  "bestDist (deposit_step tD m) = (if improves (snd tD) (bestDist m) then Some (snd tD) else bestDist m)"
  "bestTour (deposit_step tD m) = (if improves (snd tD) (bestDist m) then Some (fst tD) else bestTour m)"
  by (simp_all add: deposit_step_def Let_def)



lemma run_ex:
  "runIteration \<lparr>alpha = 1, beta = 2, rho = 1/2, ants = 1\<rparr> rnd_zero 0 ex_model = Inr (ex_after, 2)"
proof -
  have c: "cities ex_model = ex_cities" by (simp add: ex_model_def)
  have l: "ants_loop (cities ex_model) (pher ex_model) \<lparr>alpha = 1, beta = 2, rho = 1/2, ants = 1\<rparr>
     rnd_zero (nat (ants \<lparr>alpha = 1, beta = 2, rho = 1/2, ants = 1\<rparr>)) 0 ([], [])
     = Inr ([[0, 1, 0]], [2], 2)"
    by (simp add: c ant_ex)
  have e: "evaporate (1/2) [''0-1'' \<mapsto> 1] = [''0-1'' \<mapsto> 1/2]"
    by (simp add: evaporate_def fun_eq_iff)
  have k: "edgeKey 0 1 = ''0-1''" "edgeKey 1 0 = ''0-1''"
    by (simp_all add: edgeKey_def show_nat.simps digit_char_def)
  have d: "deposit [0, 1, 0] (1 / (2 + 0.000001)) [''0-1'' \<mapsto> 1/2]
      = [''0-1'' \<mapsto> 1/2 + 2000000/2000001]"
    using k by (simp add: fun_eq_iff)
  have dl: "deposit_loop [[0, 1, 0]] [2] (ex_model\<lparr>pher := [''0-1'' \<mapsto> 1/2]\<rparr>)
      = ex_after\<lparr>iter := 0\<rparr>"
    using d by (simp add: deposit_loop_def deposit_step_def Let_def improves_def ex_model_def
        ex_after_def)
  show ?thesis
    using dl unfolding runIteration_def l
    by (simp add: length_ex pher_ex e ex_after_def)
qed

lemma improves_trans: "a < D \<Longrightarrow> improves D b \<Longrightarrow> improves a b"
  by (auto simp: improves_def split: option.splits)

lemma improves_best_le: "improves D b \<Longrightarrow> best_le (Some D) b"
  by (auto simp: improves_def best_le_def split: option.splits)

lemma best_le_refl: "best_le b b"
  by (simp add: best_le_def split: option.splits)

lemma best_le_trans: "best_le a b \<Longrightarrow> best_le b c \<Longrightarrow> best_le a c"
  by (auto simp: best_le_def split: option.splits)

lemma deposit_loop_Cons:
  "deposit_loop (t # tours) (D # tourD) m = deposit_loop tours tourD (deposit_step (t, D) m)"
  by (simp add: deposit_loop_def)

lemma deposit_loop_best:
  assumes "length tours = length tourD"
  shows "if \<exists>D \<in> set tourD. improves D (bestDist m)
     then \<exists>k<length tourD. (\<forall>D \<in> set tourD. tourD ! k \<le> D) \<and> (\<forall>i<k. tourD ! k < tourD ! i) \<and>
            improves (tourD ! k) (bestDist m) \<and>
            bestDist (deposit_loop tours tourD m) = Some (tourD ! k) \<and>
            bestTour (deposit_loop tours tourD m) = Some (tours ! k)
     else bestDist (deposit_loop tours tourD m) = bestDist m \<and>
          bestTour (deposit_loop tours tourD m) = bestTour m"
  using assms
proof (induction tours tourD arbitrary: m rule: list_induct2)
  case Nil
  then show ?case by (simp add: deposit_loop_def)
next
  case (Cons t tours D tourD)
  let ?m1 = "deposit_step (t, D) m"
  let ?res = "deposit_loop tours tourD ?m1"
  have res: "deposit_loop (t # tours) (D # tourD) m = ?res" by (rule deposit_loop_Cons)
  note IH = Cons.IH [of ?m1]
  show ?case
  proof (cases "improves D (bestDist m)")
    case True
    then have b1: "bestDist ?m1 = Some D" and t1: "bestTour ?m1 = Some t"
      by (simp_all add: deposit_step_fields)
    have cond: "\<exists>x \<in> set (D # tourD). improves x (bestDist m)" using True by simp
    show ?thesis
    proof (cases "\<exists>x \<in> set tourD. improves x (bestDist ?m1)")
      case better: True
      with IH obtain k where k: "k < length tourD"
        and mn: "\<forall>x \<in> set tourD. tourD ! k \<le> x"
        and fst: "\<forall>i<k. tourD ! k < tourD ! i"
        and imp: "improves (tourD ! k) (bestDist ?m1)"
        and bd: "bestDist ?res = Some (tourD ! k)"
        and bt: "bestTour ?res = Some (tours ! k)"
        by auto
      from imp b1 have lt: "tourD ! k < D" by (simp add: improves_def)
      have 1: "Suc k < length (D # tourD)" using k by simp
      have 2: "\<forall>x \<in> set (D # tourD). (D # tourD) ! Suc k \<le> x" using mn lt by auto
      have 3: "\<forall>i<Suc k. (D # tourD) ! Suc k < (D # tourD) ! i"
      proof (intro allI impI)
        fix i assume "i < Suc k"
        then show "(D # tourD) ! Suc k < (D # tourD) ! i"
          using lt fst by (cases i) auto
      qed
      have 4: "improves ((D # tourD) ! Suc k) (bestDist m)"
        using improves_trans [OF lt True] by simp
      have 5: "bestDist (deposit_loop (t # tours) (D # tourD) m) = Some ((D # tourD) ! Suc k)"
        "bestTour (deposit_loop (t # tours) (D # tourD) m) = Some ((t # tours) ! Suc k)"
        unfolding res using bd bt by simp_all
      from 1 2 3 4 5 have "\<exists>k<length (D # tourD). (\<forall>x \<in> set (D # tourD). (D # tourD) ! k \<le> x) \<and>
          (\<forall>i<k. (D # tourD) ! k < (D # tourD) ! i) \<and>
          improves ((D # tourD) ! k) (bestDist m) \<and>
          bestDist (deposit_loop (t # tours) (D # tourD) m) = Some ((D # tourD) ! k) \<and>
          bestTour (deposit_loop (t # tours) (D # tourD) m) = Some ((t # tours) ! k)"
        by blast
      with cond show ?thesis by (simp only: if_True)
    next
      case none: False
      with IH have bd: "bestDist ?res = Some D" and bt: "bestTour ?res = Some t"
        using b1 t1 by simp_all
      from none b1 have ge: "\<forall>x \<in> set tourD. D \<le> x" by (auto simp: improves_def)
      have 1: "0 < length (D # tourD)" by simp
      have 2: "\<forall>x \<in> set (D # tourD). (D # tourD) ! 0 \<le> x" using ge by simp
      have 3: "\<forall>i<0. (D # tourD) ! 0 < (D # tourD) ! i" by simp
      have 4: "improves ((D # tourD) ! 0) (bestDist m)" using True by simp
      have 5: "bestDist (deposit_loop (t # tours) (D # tourD) m) = Some ((D # tourD) ! 0)"
        "bestTour (deposit_loop (t # tours) (D # tourD) m) = Some ((t # tours) ! 0)"
        unfolding res using bd bt by simp_all
      from 1 2 3 4 5 have "\<exists>k<length (D # tourD). (\<forall>x \<in> set (D # tourD). (D # tourD) ! k \<le> x) \<and>
          (\<forall>i<k. (D # tourD) ! k < (D # tourD) ! i) \<and>
          improves ((D # tourD) ! k) (bestDist m) \<and>
          bestDist (deposit_loop (t # tours) (D # tourD) m) = Some ((D # tourD) ! k) \<and>
          bestTour (deposit_loop (t # tours) (D # tourD) m) = Some ((t # tours) ! k)"
        by blast
      with cond show ?thesis by (simp only: if_True)
    qed
  next
    case False
    then have b1: "bestDist ?m1 = bestDist m" and t1: "bestTour ?m1 = bestTour m"
      by (simp_all add: deposit_step_fields)
    from False obtain b where b: "bestDist m = Some b" and bD: "b \<le> D"
      by (auto simp: improves_def split: option.splits)
    show ?thesis
    proof (cases "\<exists>x \<in> set tourD. improves x (bestDist m)")
      case better: True
      then have cond: "\<exists>x \<in> set (D # tourD). improves x (bestDist m)" by simp
      from better IH obtain k where k: "k < length tourD"
        and mn: "\<forall>x \<in> set tourD. tourD ! k \<le> x"
        and fst: "\<forall>i<k. tourD ! k < tourD ! i"
        and imp: "improves (tourD ! k) (bestDist m)"
        and bd: "bestDist ?res = Some (tourD ! k)"
        and bt: "bestTour ?res = Some (tours ! k)"
        unfolding b1 by auto
      from imp b bD have lt: "tourD ! k < D" by (simp add: improves_def)
      have 1: "Suc k < length (D # tourD)" using k by simp
      have 2: "\<forall>x \<in> set (D # tourD). (D # tourD) ! Suc k \<le> x" using mn lt by auto
      have 3: "\<forall>i<Suc k. (D # tourD) ! Suc k < (D # tourD) ! i"
      proof (intro allI impI)
        fix i assume "i < Suc k"
        then show "(D # tourD) ! Suc k < (D # tourD) ! i"
          using lt fst by (cases i) auto
      qed
      have 4: "improves ((D # tourD) ! Suc k) (bestDist m)" using imp by simp
      have 5: "bestDist (deposit_loop (t # tours) (D # tourD) m) = Some ((D # tourD) ! Suc k)"
        "bestTour (deposit_loop (t # tours) (D # tourD) m) = Some ((t # tours) ! Suc k)"
        unfolding res using bd bt by simp_all
      from 1 2 3 4 5 have "\<exists>k<length (D # tourD). (\<forall>x \<in> set (D # tourD). (D # tourD) ! k \<le> x) \<and>
          (\<forall>i<k. (D # tourD) ! k < (D # tourD) ! i) \<and>
          improves ((D # tourD) ! k) (bestDist m) \<and>
          bestDist (deposit_loop (t # tours) (D # tourD) m) = Some ((D # tourD) ! k) \<and>
          bestTour (deposit_loop (t # tours) (D # tourD) m) = Some ((t # tours) ! k)"
        by blast
      with cond show ?thesis by (simp only: if_True)
    next
      case none: False
      with False have cond: "\<not> (\<exists>x \<in> set (D # tourD). improves x (bestDist m))" by simp
      from none IH have "bestDist ?res = bestDist m \<and> bestTour ?res = bestTour m"
        unfolding b1 t1 by simp
      then have "bestDist (deposit_loop (t # tours) (D # tourD) m) = bestDist m \<and>
          bestTour (deposit_loop (t # tours) (D # tourD) m) = bestTour m"
        unfolding res .
      with cond show ?thesis by (simp only: if_False)
    qed
  qed
qed

lemma runIteration_best:
  assumes n: "2 \<le> length (cities m)" and r: "runIteration p rnd i m = Inr (m', i')"
  shows "\<exists>tours tourD.
     ants_loop (cities m) (pher m) p rnd (nat (ants p)) i ([], []) = Inr (tours, tourD, i') \<and>
     length tours = length tourD \<and>
     (if \<exists>D \<in> set tourD. improves D (bestDist m)
      then \<exists>k<length tourD. (\<forall>D \<in> set tourD. tourD ! k \<le> D) \<and>
             (\<forall>j<k. tourD ! k < tourD ! j) \<and> improves (tourD ! k) (bestDist m) \<and>
             bestDist m' = Some (tourD ! k) \<and> bestTour m' = Some (tours ! k)
      else bestDist m' = bestDist m \<and> bestTour m' = bestTour m)"
proof -
  let ?m1 = "m\<lparr>pher := evaporate (rho p) (pher m)\<rparr>"
  from n r obtain tours tourD where
    l: "ants_loop (cities m) (pher m) p rnd (nat (ants p)) i ([], []) = Inr (tours, tourD, i')"
    and m': "m' = (deposit_loop tours tourD ?m1)\<lparr>iter := iter (deposit_loop tours tourD ?m1) + 1\<rparr>"
    by (auto simp: runIteration_def Let_def split: sum.splits)
  from ants_loop_acc [OF l] have len: "length tours = length tourD" by simp
  have bd: "bestDist m' = bestDist (deposit_loop tours tourD ?m1)"
    and bt: "bestTour m' = bestTour (deposit_loop tours tourD ?m1)"
    unfolding m' by simp_all
  have e1: "bestDist ?m1 = bestDist m" and e2: "bestTour ?m1 = bestTour m" by simp_all
  from deposit_loop_best [OF len, of ?m1]
  have "if \<exists>D \<in> set tourD. improves D (bestDist m)
      then \<exists>k<length tourD. (\<forall>D \<in> set tourD. tourD ! k \<le> D) \<and>
             (\<forall>j<k. tourD ! k < tourD ! j) \<and> improves (tourD ! k) (bestDist m) \<and>
             bestDist m' = Some (tourD ! k) \<and> bestTour m' = Some (tours ! k)
      else bestDist m' = bestDist m \<and> bestTour m' = bestTour m"
    unfolding bd bt e1 e2 .
  with l len show ?thesis by blast
qed

lemma runIteration_best_le:
  assumes r: "runIteration p rnd i m = Inr (m', i')"
  shows "best_le (bestDist m') (bestDist m)"
proof (cases "length (cities m) < 2")
  case True
  with r have "m' = m" by (simp add: runIteration_def)
  then show ?thesis by (simp add: best_le_refl)
next
  case False
  then have n: "2 \<le> length (cities m)" by simp
  from runIteration_best [OF n r] obtain tours tourD where
    c: "if \<exists>D \<in> set tourD. improves D (bestDist m)
      then \<exists>k<length tourD. (\<forall>D \<in> set tourD. tourD ! k \<le> D) \<and>
             (\<forall>j<k. tourD ! k < tourD ! j) \<and> improves (tourD ! k) (bestDist m) \<and>
             bestDist m' = Some (tourD ! k) \<and> bestTour m' = Some (tours ! k)
      else bestDist m' = bestDist m \<and> bestTour m' = bestTour m"
    by blast
  show ?thesis
  proof (cases "\<exists>D \<in> set tourD. improves D (bestDist m)")
    case True
    with c obtain k where "improves (tourD ! k) (bestDist m)" "bestDist m' = Some (tourD ! k)"
      by auto
    then show ?thesis by (simp add: improves_best_le)
  next
    case False
    with c have "bestDist m' = bestDist m" by simp
    then show ?thesis by (simp add: best_le_refl)
  qed
qed

lemma run_iterations_best_le:
  "run_iterations ps rnd i m = Inr (m', i') \<Longrightarrow> best_le (bestDist m') (bestDist m)"
proof (induction ps arbitrary: i m)
  case Nil
  then show ?case by (simp add: best_le_refl)
next
  case (Cons p ps)
  from Cons.prems obtain m1 i1 where r: "runIteration p rnd i m = Inr (m1, i1)"
    and rest: "run_iterations ps rnd i1 m1 = Inr (m', i')"
    by (auto split: sum.splits)
  from best_le_trans [OF Cons.IH [OF rest] runIteration_best_le [OF r]] show ?case .
qed

lemma tie_ex:
  "bestTour (deposit_loop [[0, 1, 0], [1, 0, 1]] [2, 2] ex_model) = Some [0, 1, 0] \<and>
   bestDist (deposit_loop [[0, 1, 0], [1, 0, 1]] [2, 2] ex_model) = Some 2"
  by (simp add: deposit_loop_def deposit_step_def Let_def improves_def ex_model_def)

lemma digit_char_code:
  assumes "d < 10"
  shows "of_char (digit_char d) = (48 + d :: nat)"
proof -
  have "[0 ..< 10] = [0, 1, 2, 3, 4, 5, 6, 7, 8, 9 :: nat]" by (simp add: upt_rec)
  moreover have "d \<in> set [0 ..< 10]" using assms by simp
  ultimately have "d \<in> set [0, 1, 2, 3, 4, 5, 6, 7, 8, 9 :: nat]" by (simp only:)
  then consider "d = 0" | "d = 1" | "d = 2" | "d = 3" | "d = 4" | "d = 5" | "d = 6"
    | "d = 7" | "d = 8" | "d = 9"
    by auto
  then show ?thesis by cases (simp_all add: digit_char_def)
qed

lemma digit_char_inj:
  assumes "a < 10" and "b < 10" and "digit_char a = digit_char b"
  shows "a = b"
proof -
  from assms(3) have "(of_char (digit_char a) :: nat) = of_char (digit_char b)"
    by (rule arg_cong)
  then have "(48 + a :: nat) = 48 + b"
    unfolding digit_char_code [OF assms(1)] digit_char_code [OF assms(2)] .
  then show ?thesis by simp
qed

lemma digit_char_not_dash: "d < 10 \<Longrightarrow> digit_char d \<noteq> CHR ''-''"
proof
  assume d: "d < 10" and e: "digit_char d = CHR ''-''"
  from e have "(of_char (digit_char d) :: nat) = of_char (CHR ''-'')" by (rule arg_cong)
  then have "(48 + d :: nat) = of_char (CHR ''-'')" unfolding digit_char_code [OF d] .
  then show False by simp
qed

lemma show_nat_nonempty: "show_nat n \<noteq> []"
  by (subst show_nat.simps) simp

lemma show_nat_no_dash: "CHR ''-'' \<notin> set (show_nat n)"
proof (induction n rule: show_nat.induct)
  case (1 n)
  show ?case
  proof (cases "n < 10")
    case True
    then show ?thesis
      using digit_char_not_dash [of n] by (subst show_nat.simps) auto
  next
    case False
    have "n mod 10 < 10" by simp
    from digit_char_not_dash [OF this] "1.IH" [OF False] False
    show ?thesis by (subst show_nat.simps) auto
  qed
qed

lemma show_nat_inj: "show_nat a = show_nat b \<Longrightarrow> a = b"
proof (induction a arbitrary: b rule: show_nat.induct)
  case (1 a)
  show ?case
  proof (cases "a < 10")
    case a: True
    then have sa: "show_nat a = [digit_char a]" by (subst show_nat.simps) simp
    show ?thesis
    proof (cases "b < 10")
      case True
      then have "show_nat b = [digit_char b]" by (subst show_nat.simps) simp
      with sa "1.prems" a True show ?thesis by (auto intro: digit_char_inj)
    next
      case False
      then have "show_nat b = show_nat (b div 10) @ [digit_char (b mod 10)]"
        by (subst show_nat.simps) simp
      with sa "1.prems" show_nat_nonempty [of "b div 10"] show ?thesis by auto
    qed
  next
    case a: False
    then have sa: "show_nat a = show_nat (a div 10) @ [digit_char (a mod 10)]"
      by (subst show_nat.simps) simp
    show ?thesis
    proof (cases "b < 10")
      case True
      then have "show_nat b = [digit_char b]" by (subst show_nat.simps) simp
      with sa "1.prems" show_nat_nonempty [of "a div 10"] show ?thesis by auto
    next
      case False
      then have "show_nat b = show_nat (b div 10) @ [digit_char (b mod 10)]"
        by (subst show_nat.simps) simp
      with sa "1.prems" have hi: "show_nat (a div 10) = show_nat (b div 10)"
        and lo: "digit_char (a mod 10) = digit_char (b mod 10)" by auto
      from "1.IH" [OF a hi] have "a div 10 = b div 10" .
      moreover have "a mod 10 = b mod 10"
        using lo by (intro digit_char_inj) simp_all
      ultimately show ?thesis by (metis div_mult_mod_eq)
    qed
  qed
qed

lemma split_at_dash:
  assumes "xs @ ''-'' @ ys = xs' @ ''-'' @ ys'"
    and "CHR ''-'' \<notin> set xs" and "CHR ''-'' \<notin> set xs'"
  shows "xs = xs' \<and> ys = ys'"
  using assms
proof (induction xs arbitrary: xs')
  case Nil
  then show ?case by (cases xs') auto
next
  case (Cons c xs)
  then show ?case by (cases xs') auto
qed

lemma edgeKey_lt: "i < j \<Longrightarrow> edgeKey i j = show_nat i @ ''-'' @ show_nat j"
  by (simp add: edgeKey_def)

lemma edgeKey_inj:
  assumes "i < j" and "k < l" and "edgeKey i j = edgeKey k l"
  shows "i = k \<and> j = l"
proof -
  from assms have "show_nat i @ ''-'' @ show_nat j = show_nat k @ ''-'' @ show_nat l"
    by (simp add: edgeKey_lt)
  from split_at_dash [OF this show_nat_no_dash show_nat_no_dash]
  show ?thesis by (auto dest: show_nat_inj)
qed

lemma edgeKey_sym: "edgeKey a b = edgeKey b a"
  by (auto simp: edgeKey_def)

lemma dom_init_inner:
  "dom (fold (\<lambda>j ph'. ph'(edgeKey i j \<mapsto> (1::real))) js ph) = dom ph \<union> edgeKey i ` set js"
  by (induction js arbitrary: ph) auto

lemma dom_init_outer:
  "dom (fold (\<lambda>i ph. fold (\<lambda>j ph'. ph'(edgeKey i j \<mapsto> (1::real))) (f i) ph) is ph)
     = dom ph \<union> (\<Union>i \<in> set is. edgeKey i ` set (f i))"
proof (induction "is" arbitrary: ph)
  case Nil
  then show ?case by simp
next
  case (Cons i "is")
  show ?case
    by (simp del: fun_upd_apply add: Cons.IH dom_init_inner Un_assoc)
qed

lemma dom_initPheromones:
  "dom (initPheromones cs) = (\<lambda>(i, j). edgeKey i j) ` edge_pairs (length cs)"
proof -
  have "dom (initPheromones cs) = (\<Union>i \<in> {0 ..< length cs}. edgeKey i ` {i + 1 ..< length cs})"
    unfolding initPheromones_def dom_init_outer by simp
  also have "\<dots> = (\<lambda>(i, j). edgeKey i j) ` edge_pairs (length cs)"
    by (auto simp: edge_pairs_def image_iff) force
  finally show ?thesis .
qed

lemma edge_pairs_Suc:
  "edge_pairs (Suc n) = edge_pairs n \<union> (\<lambda>i. (i, n)) ` {..<n}"
  by (auto simp: edge_pairs_def less_Suc_eq)

lemma finite_edge_pairs: "finite (edge_pairs n)"
  by (induction n) (auto simp: edge_pairs_Suc, simp add: edge_pairs_def)

lemma card_edge_pairs: "card (edge_pairs n) = n * (n - 1) div 2"
proof (induction n)
  case 0
  then show ?case by (simp add: edge_pairs_def)
next
  case (Suc n)
  have disj: "edge_pairs n \<inter> (\<lambda>i. (i, n)) ` {..<n} = {}"
    by (auto simp: edge_pairs_def)
  have "card ((\<lambda>i. (i, n)) ` {..<n}) = n"
    by (simp add: card_image inj_on_def)
  then have "card (edge_pairs (Suc n)) = card (edge_pairs n) + n"
    unfolding edge_pairs_Suc using disj finite_edge_pairs [of n]
    by (simp add: card_Un_disjoint)
  also have "\<dots> = n * (n - 1) div 2 + n" by (simp add: Suc.IH)
  also have "\<dots> = (n * (n - 1) + n * 2) div 2" by simp
  also have "n * (n - 1) + n * 2 = Suc n * (Suc n - 1)"
    by (cases n) (simp_all add: algebra_simps)
  finally show ?case .
qed

lemma inj_on_edgeKey: "inj_on (\<lambda>(i, j). edgeKey i j) (edge_pairs n)"
  by (auto simp: inj_on_def edge_pairs_def dest: edgeKey_inj)

lemma card_dom_initPheromones:
  "card (dom (initPheromones cs)) = length cs * (length cs - 1) div 2"
  unfolding dom_initPheromones
  by (simp add: card_image [OF inj_on_edgeKey] card_edge_pairs)

subsection \<open>Rounding to a double\<close>

lemma round_even_near:
  assumes "\<bar>z - of_int m\<bar> < 1/2"
  shows "round_even z = m"
proof (cases "of_int m \<le> z")
  case True
  with assms have f: "\<lfloor>z\<rfloor> = m" by linarith
  have "z - of_int m < 1/2" using assms True by linarith
  then show ?thesis unfolding round_even_def Let_def f by simp
next
  case False
  with assms have f: "\<lfloor>z\<rfloor> = m - 1" by linarith
  have "1/2 < z - of_int (m - 1)" using assms False by simp
  then have "\<not> z - of_int (m - 1) < 1/2" by linarith
  with \<open>1/2 < z - of_int (m - 1)\<close> show ?thesis unfolding round_even_def Let_def f by simp
qed

lemma round_even_tie:
  assumes "z = of_int f + 1/2"
  shows "round_even z = (if even f then f else f + 1)"
proof -
  have fl: "\<lfloor>z\<rfloor> = f" using assms by linarith
  have d: "z - of_int f = 1/2" using assms by simp
  show ?thesis unfolding round_even_def Let_def fl d by simp
qed

lemma round_even_bound: "\<bar>of_int (round_even z) - z\<bar> \<le> 1/2"
  unfolding round_even_def Let_def by (simp split: if_splits)

lemma fl_eqI:
  assumes nz: "x \<noteq> 0"
    and lo: "2 powr of_int e \<le> \<bar>x\<bar>" and hi: "\<bar>x\<bar> < 2 powr (of_int e + 1)"
    and e: "- 1022 \<le> e"
    and r: "round_even (x / 2 powr (of_int e - 52)) = m"
    and y: "y = of_int m * 2 powr (of_int e - 52)"
    and fin: "\<bar>y\<bar> < 2 powr 1024"
  shows "fl x = Fin y"
proof -
  have "\<lfloor>log 2 \<bar>x\<bar>\<rfloor> = e"
    using nz lo hi by (subst floor_log_eq_powr_iff) auto
  then have ex: "max \<lfloor>log 2 \<bar>x\<bar>\<rfloor> (- 1022) = e" using e by simp
  have "\<not> 2 powr 1024 \<le> y" "\<not> y \<le> - (2 powr 1024)" using fin by linarith+
  then show ?thesis
    using nz by (simp add: fl_def Let_def ex r y [symmetric])
qed

lemma log2_less: "0 < x \<Longrightarrow> x < 2 powr b \<Longrightarrow> log 2 x < b"
  by (simp add: log_less_iff)

lemma scale_below_half:
  fixes x a :: real
  assumes "\<bar>x\<bar> < 2 powr (- (a + 1))"
  shows "\<bar>x / 2 powr (- a) - of_int 0\<bar> < 1/2"
proof -
  have "\<bar>x / 2 powr (- a)\<bar> = \<bar>x\<bar> * 2 powr a"
    by (simp add: powr_minus divide_inverse abs_mult)
  also have "\<dots> < 2 powr (- (a + 1)) * 2 powr a"
    using assms by (intro mult_strict_right_mono) simp_all
  also have "\<dots> = 2 powr (- 1)" by (simp only: powr_add [symmetric]) simp
  also have "\<dots> = 1/2" by (simp add: powr_minus)
  finally show ?thesis by simp
qed

lemma fl_tiny:
  assumes "\<bar>x\<bar> < 2 powr (- 1075)"
  shows "fl x = Fin 0"
proof (cases "x = 0")
  case True
  then show ?thesis by (simp add: fl_def)
next
  case False
  then have pos: "0 < \<bar>x\<bar>" by simp
  have "log 2 \<bar>x\<bar> < - 1075"
    using pos assms by (rule log2_less)
  then have "\<lfloor>log 2 \<bar>x\<bar>\<rfloor> < - 1022" by linarith
  then have ex: "max \<lfloor>log 2 \<bar>x\<bar>\<rfloor> (- 1022) = - 1022" by simp
  have ee: "real_of_int (- 1022) - 52 = - 1074" by simp
  have "\<bar>x\<bar> < 2 powr (- (1074 + 1))" using assms by simp
  then have "\<bar>x / 2 powr (- 1074) - of_int 0\<bar> < 1/2" by (rule scale_below_half)
  then have r: "round_even (x / 2 powr (- 1074)) = 0" by (rule round_even_near)
  have z: "\<not> 2 powr 1024 \<le> (0::real)" "\<not> (0::real) \<le> - (2 powr 1024)"
    using powr_gt_zero [of 2 1024] by linarith+
  show ?thesis
    unfolding fl_def Let_def ex ee r using False z by (simp del: powr_numeral powr_neg_numeral)
qed

lemma fl_eq_neg_gen:
  assumes lo: "1 \<le> \<bar>x\<bar> * 2 ^ k" and hi: "\<bar>x\<bar> * 2 ^ k < 2" and k: "k \<le> 1022"
    and r: "round_even (x * 2 ^ (k + 52)) = m"
    and y: "y = of_int m / 2 ^ (k + 52)"
  shows "fl x = Fin y"
proof (rule fl_eqI [where e = "- int k" and m = m])
  have p: "2 powr (- real k) = 1 / 2 ^ k"
    by (simp add: powr_minus powr_realpow divide_inverse)
  show "x \<noteq> 0" using lo by auto
  show "2 powr real_of_int (- int k) \<le> \<bar>x\<bar>"
    using lo by (simp add: p field_simps)
  have "2 powr (real_of_int (- int k) + 1) = 2 powr (- real k) * 2 powr 1"
    by (simp only: powr_add [symmetric]) simp
  then have p1: "2 powr (real_of_int (- int k) + 1) = 2 / 2 ^ k" by (simp add: p)
  show "\<bar>x\<bar> < 2 powr (real_of_int (- int k) + 1)"
    unfolding p1 using hi by (simp add: field_simps)
  show "- 1022 \<le> - int k" using k by simp
  have q: "2 powr (real_of_int (- int k) - 52) = 1 / 2 ^ (k + 52)"
  proof -
    have "real_of_int (- int k) - 52 = - real (k + 52)" by simp
    then show ?thesis by (simp only: powr_minus powr_realpow zero_less_numeral divide_inverse mult_1)
  qed
  show "round_even (x / 2 powr (real_of_int (- int k) - 52)) = m"
    unfolding q using r by simp
  show "y = real_of_int m * 2 powr (real_of_int (- int k) - 52)"
    unfolding q y by simp
  have "\<bar>real_of_int m\<bar> \<le> \<bar>x * 2 ^ (k + 52)\<bar> + 1/2"
    using round_even_bound [of "x * 2 ^ (k + 52)"] unfolding r by linarith
  also have "\<bar>x * 2 ^ (k + 52)\<bar> = (\<bar>x\<bar> * 2 ^ k) * 2 ^ 52"
    by (simp add: abs_mult power_add)
  also have "\<dots> < 2 * 2 ^ 52" using hi by simp
  finally have mb: "\<bar>real_of_int m\<bar> < 2 ^ 54" by simp
  have "\<bar>y\<bar> = \<bar>real_of_int m\<bar> / 2 ^ (k + 52)" unfolding y by (simp add: abs_divide)
  also have "\<dots> \<le> \<bar>real_of_int m\<bar> / 1"
    by (intro divide_left_mono) simp_all
  also have "\<dots> < 2 ^ 54" using mb by simp
  also have "(2::real) ^ 54 \<le> 2 powr 1024"
  proof -
    have "2 powr (54::real) \<le> 2 powr 1024" by (rule powr_mono) simp_all
    moreover have "2 powr (54::real) = 2 ^ 54" by (rule powr_numeral) simp
    ultimately show ?thesis by (simp only:)
  qed
  finally show "\<bar>y\<bar> < 2 powr 1024" .
qed

lemma fl_zero: "fl 0 = Fin 0"
  by (simp add: fl_def)

lemma fl_eq_pos_gen:
  assumes lo: "2 ^ k \<le> \<bar>x\<bar>" and hi: "\<bar>x\<bar> < 2 ^ (k + 1)" and k: "k \<le> 52"
    and r: "round_even (x * 2 ^ (52 - k)) = m"
    and y: "y = of_int m / 2 ^ (52 - k)"
  shows "fl x = Fin y"
proof (rule fl_eqI [where e = "int k" and m = m])
  have p: "2 powr real k = 2 ^ k" by (simp add: powr_realpow)
  have "(0::real) < 2 ^ k" by simp
  with lo have "0 < \<bar>x\<bar>" by linarith
  then show "x \<noteq> 0" by auto
  show "2 powr real_of_int (int k) \<le> \<bar>x\<bar>" using lo by (simp add: p)
  have "2 powr (real_of_int (int k) + 1) = 2 powr real (k + 1)" by (simp add: add.commute)
  also have "\<dots> = 2 ^ (k + 1)" by (simp only: powr_realpow zero_less_numeral)
  finally show "\<bar>x\<bar> < 2 powr (real_of_int (int k) + 1)" using hi by simp
  show "- 1022 \<le> int k" by simp
  have q: "2 powr (real_of_int (int k) - 52) = 1 / 2 ^ (52 - k)"
  proof -
    have "real_of_int (int k) - 52 = - real (52 - k)" using k by simp
    then show ?thesis by (simp only: powr_minus powr_realpow zero_less_numeral divide_inverse mult_1)
  qed
  show "round_even (x / 2 powr (real_of_int (int k) - 52)) = m"
    unfolding q using r by simp
  show "y = real_of_int m * 2 powr (real_of_int (int k) - 52)"
    unfolding q y by simp
  have "\<bar>real_of_int m\<bar> \<le> \<bar>x * 2 ^ (52 - k)\<bar> + 1/2"
    using round_even_bound [of "x * 2 ^ (52 - k)"] unfolding r by linarith
  also have "\<bar>x * 2 ^ (52 - k)\<bar> = \<bar>x\<bar> * 2 ^ (52 - k)" by (simp add: abs_mult)
  also have "\<dots> < 2 ^ (k + 1) * 2 ^ (52 - k)" using hi by simp
  also have "(2::real) ^ (k + 1) * 2 ^ (52 - k) = 2 ^ 53"
    using k by (simp add: power_add [symmetric])
  finally have mb: "\<bar>real_of_int m\<bar> < 2 ^ 54" by simp
  have "\<bar>y\<bar> = \<bar>real_of_int m\<bar> / 2 ^ (52 - k)" unfolding y by (simp add: abs_divide)
  also have "\<dots> \<le> \<bar>real_of_int m\<bar> / 1"
    by (intro divide_left_mono) simp_all
  also have "\<dots> < 2 ^ 54" using mb by simp
  also have "(2::real) ^ 54 \<le> 2 powr 1024"
  proof -
    have "2 powr (54::real) \<le> 2 powr 1024" by (rule powr_mono) simp_all
    moreover have "2 powr (54::real) = 2 ^ 54" by (rule powr_numeral) simp
    ultimately show ?thesis by (simp only:)
  qed
  finally show "\<bar>y\<bar> < 2 powr 1024" .
qed

lemma fl_eq_neg:
  assumes "1 \<le> \<bar>x\<bar> * 2 ^ k" and "\<bar>x\<bar> * 2 ^ k < 2" and "k \<le> 1022"
    and "\<bar>x * 2 ^ (k + 52) - of_int m\<bar> < 1/2"
    and "y = of_int m / 2 ^ (k + 52)"
  shows "fl x = Fin y"
  using assms(1-3) round_even_near [OF assms(4)] assms(5) by (rule fl_eq_neg_gen)

lemma fl_eq_neg_tie:
  assumes "1 \<le> \<bar>x\<bar> * 2 ^ k" and "\<bar>x\<bar> * 2 ^ k < 2" and "k \<le> 1022"
    and "x * 2 ^ (k + 52) = of_int f + 1/2"
    and "y = of_int (if even f then f else f + 1) / 2 ^ (k + 52)"
  shows "fl x = Fin y"
  using assms(1-3) round_even_tie [OF assms(4)] assms(5) by (rule fl_eq_neg_gen)

lemma fl_eq_pos:
  assumes "2 ^ k \<le> \<bar>x\<bar>" and "\<bar>x\<bar> < 2 ^ (k + 1)" and "k \<le> 52"
    and "\<bar>x * 2 ^ (52 - k) - of_int m\<bar> < 1/2"
    and "y = of_int m / 2 ^ (52 - k)"
  shows "fl x = Fin y"
  using assms(1-3) round_even_near [OF assms(4)] assms(5) by (rule fl_eq_pos_gen)

lemma round_even_nonneg: "0 \<le> z \<Longrightarrow> 0 \<le> round_even z"
  using round_even_bound [of z] by linarith

lemma fl_below:
  fixes x N :: real
  assumes x0: "0 \<le> x" and xN: "x \<le> N - N / 2 ^ 53" and N1: "1 \<le> N" and N2: "N \<le> 2 ^ 32"
  shows "\<exists>v. fl x = Fin v \<and> 0 \<le> v \<and> v < N"
proof (cases "x = 0")
  case True
  with N1 show ?thesis by (simp add: fl_zero)
next
  case False
  with x0 have xpos: "0 < x" by simp
  define e where "e = max \<lfloor>log 2 \<bar>x\<bar>\<rfloor> (- 1022)"
  define q :: real where "q = 2 powr (of_int e - 52)"
  define m where "m = round_even (x / q)"
  have qpos: "0 < q" by (simp add: q_def)
  have xltN: "x < N" using xN N1 by (smt (verit) divide_pos_pos zero_less_power)
  have pe: "2 powr of_int e < N"
  proof (cases "- 1022 \<le> \<lfloor>log 2 \<bar>x\<bar>\<rfloor>")
    case True
    then have "e = \<lfloor>log 2 x\<rfloor>" using xpos by (simp add: e_def)
    then have "of_int e \<le> log 2 x" by simp
    then have "(2::real) powr of_int e \<le> 2 powr log 2 x" by (intro powr_mono) simp_all
    also have "\<dots> = x" using xpos by simp
    finally show ?thesis using xltN by linarith
  next
    case False
    then have "e = - 1022" by (simp add: e_def)
    then have "(2::real) powr of_int e < 2 powr 0" by (intro powr_less_mono) simp_all
    then show ?thesis using N1 by simp
  qed
  have q2: "q * 2 ^ 53 = 2 * 2 powr of_int e"
  proof -
    have "q * 2 powr 53 = 2 powr (of_int e - 52 + 53)" unfolding q_def by (simp only: powr_add)
    also have "\<dots> = 2 powr (of_int e + 1)" by (simp add: add.commute)
    also have "\<dots> = 2 powr of_int e * 2" by (simp add: powr_add)
    finally have "q * 2 powr 53 = 2 * 2 powr of_int e" by simp
    moreover have "2 powr (53::real) = 2 ^ 53" by (rule powr_numeral) simp
    ultimately show ?thesis by (simp only:)
  qed
  have half: "1 / 2 < N / (q * 2 ^ 53)"
  proof -
    have "0 < (2::real) powr of_int e" by simp
    then have "1 / 2 < N / (2 * 2 powr of_int e)" using pe by (simp add: field_simps)
    then show ?thesis unfolding q2 .
  qed
  have q0: "0 \<le> q" using qpos by simp
  have "x / q \<le> (N - N / 2 ^ 53) / q" using xN q0 by (rule divide_right_mono)
  also have "\<dots> = N / q - N / (q * 2 ^ 53)" by (simp add: field_simps)
  also have "\<dots> < N / q - 1 / 2" using half by linarith
  finally have z: "x / q < N / q - 1 / 2" .
  have "of_int m \<le> x / q + 1 / 2" using round_even_bound [of "x / q"] unfolding m_def by linarith
  with z have "of_int m < N / q" by linarith
  then have yN: "of_int m * q < N" using qpos by (simp add: field_simps)
  have "0 \<le> x / q" using x0 qpos by simp
  then have "0 \<le> m" unfolding m_def by (rule round_even_nonneg)
  then have y0: "0 \<le> of_int m * q" using qpos by simp
  have "(2::real) ^ 32 \<le> 2 powr 1024"
  proof -
    have "2 powr (32::real) \<le> 2 powr 1024" by (rule powr_mono) simp_all
    moreover have "2 powr (32::real) = 2 ^ 32" by (rule powr_numeral) simp
    ultimately show ?thesis by (simp only:)
  qed
  with yN N2 have fin: "of_int m * q < 2 powr 1024" by linarith
  have neg: "\<not> of_int m * q \<le> - (2 powr 1024)"
    using y0 powr_gt_zero [of 2 1024] by linarith
  have "fl x = Fin (of_int m * q)"
    using False fin neg unfolding fl_def Let_def e_def [symmetric] q_def [symmetric] m_def [symmetric]
    by simp
  with y0 yN show ?thesis by blast
qed

subsection \<open>The tour loop in double precision\<close>

lemma select_next_d_ok:
  assumes cur: "cur < length cs" and sub: "fset visited \<subseteq> {..<length cs}"
    and lt: "fcard visited < length cs"
  shows "\<exists>chosen. select_next_d lm cs ph p u visited cur = Inr chosen \<and> chosen < length cs \<and>
    chosen |\<notin>| visited"
proof -
  have ne: "filter (\<lambda>j. j |\<notin>| visited) [0 ..< length cs] \<noteq> []"
    using unvisited_nonempty [OF sub lt] .
  with cur obtain chosen where sel: "select_next_d lm cs ph p u visited cur = Inr chosen"
    by (auto simp: select_next_d_cases Let_def)
  from select_next_d_in [OF sel] have "chosen < length cs \<and> chosen |\<notin>| visited" by simp
  with sel show ?thesis by blast
qed

lemma walk_d_ok:
  assumes "distinct tour" and "set tour \<subseteq> {..<length cs}" and "visited = fset_of_list tour"
    and "cur < length cs"
  shows "\<exists>tour'. walk_d lm cs ph p rnd i visited tour cur
      = Inr (tour', i + (length cs - length tour)) \<and>
    distinct tour' \<and> set tour' = {..<length cs} \<and> take (length tour) tour' = tour"
  using assms
proof (induction lm cs ph p rnd i visited tour cur rule: walk_d.induct)
  case (1 lm cs ph p rnd i visited tour cur)
  have card: "fcard visited = length tour"
    using "1.prems" by (simp add: fcard.rep_eq fset_of_list.rep_eq distinct_card)
  have sub: "fset visited \<subseteq> {..<length cs}"
    using "1.prems" by (simp add: fset_of_list.rep_eq)
  show ?case
  proof (cases "fcard visited < length cs")
    case True
    from select_next_d_ok [OF "1.prems"(4) sub True, of lm ph p "rnd i"]
    obtain chosen where sel: "select_next_d lm cs ph p (rnd i) visited cur = Inr chosen"
      and cl: "chosen < length cs" and fresh: "chosen |\<notin>| visited" by blast
    have d: "distinct (tour @ [chosen])"
      using "1.prems" fresh by (simp add: fset_of_list.rep_eq)
    have s: "set (tour @ [chosen]) \<subseteq> {..<length cs}"
      using "1.prems" cl by simp
    have v: "finsert chosen visited = fset_of_list (tour @ [chosen])"
      using "1.prems" by auto
    from "1.IH" [OF True sel d s v cl]
    obtain tour' where w: "walk_d lm cs ph p rnd (i + 1) (finsert chosen visited)
          (tour @ [chosen]) chosen
        = Inr (tour', i + 1 + (length cs - length (tour @ [chosen])))"
      and d': "distinct tour'" and s': "set tour' = {..<length cs}"
      and t': "take (length (tour @ [chosen])) tour' = tour @ [chosen]"
      by blast
    have idx: "i + 1 + (length cs - length (tour @ [chosen])) = i + (length cs - length tour)"
      using True card by simp
    have "walk_d lm cs ph p rnd i visited tour cur = Inr (tour', i + (length cs - length tour))"
      using True sel w idx by (simp add: walk_d.simps [of lm cs ph p rnd i visited tour cur])
    moreover have "take (length tour) tour' = tour"
    proof -
      have "take (length tour) (take (length (tour @ [chosen])) tour') = take (length tour) tour'"
        by (simp add: min_def)
      then show ?thesis unfolding t' by simp
    qed
    ultimately show ?thesis using d' s' by blast
  next
    case False
    then have ge: "length cs \<le> length tour" using card by simp
    have "card (set tour) = length tour" using "1.prems" by (simp add: distinct_card)
    moreover have "card (set tour) \<le> card {..<length cs}"
      using "1.prems" by (intro card_mono) auto
    ultimately have "card (set tour) = card {..<length cs}" using ge by simp
    then have eq: "set tour = {..<length cs}"
      using "1.prems" by (intro card_subset_eq) auto
    have "walk_d lm cs ph p rnd i visited tour cur = Inr (tour, i + (length cs - length tour))"
      using False ge by (simp add: walk_d.simps [of lm cs ph p rnd i visited tour cur])
    then show ?thesis using "1.prems" eq by simp
  qed
qed

lemma start_d_ok:
  assumes u: "0 \<le> u" "u \<le> 1 - 1 / 2 ^ 53" and n: "1 \<le> n" "n \<le> 2 ^ 32"
  shows "\<exists>start. start_d u n = Inr start \<and> start < n"
proof -
  have N1: "1 \<le> real n" using n by simp
  have "real n \<le> real (2 ^ 32)" using n(2) by (rule of_nat_mono)
  then have N2: "real n \<le> 2 ^ 32" by simp
  have x0: "0 \<le> u * real n" using u by simp
  have "u * real n \<le> (1 - 1 / 2 ^ 53) * real n" using u by (intro mult_right_mono) simp_all
  then have xN: "u * real n \<le> real n - real n / 2 ^ 53" by (simp add: algebra_simps)
  from fl_below [OF x0 xN N1 N2] obtain v where
    v: "fl (u * real n) = Fin v" and v0: "0 \<le> v" and vn: "v < real n" by blast
  have "nat \<lfloor>v\<rfloor> < n" using v0 vn by linarith
  then show ?thesis using v v0 by (simp add: start_d_def)
qed

lemma length_remainders_d: "length (remainders_d cands r) = length cands"
  by (induction cands arbitrary: r) simp_all

lemma roulette_d_remainders:
  "(\<exists>k<length cands. num_le0 (remainders_d cands r ! k) \<and>
      (\<forall>i<k. \<not> num_le0 (remainders_d cands r ! i)) \<and>
      roulette_d cands r ch = dcand_j (cands ! k))
   \<or> ((\<forall>k<length cands. \<not> num_le0 (remainders_d cands r ! k)) \<and> roulette_d cands r ch = ch)"
proof (induction cands arbitrary: r)
  case Nil
  show ?case by simp
next
  case (Cons c cands)
  let ?r = "num_sub r (dcand_val c)"
  show ?case
  proof (cases "num_le0 ?r")
    case True
    then have "num_le0 (remainders_d (c # cands) r ! 0) \<and>
        (\<forall>i<0. \<not> num_le0 (remainders_d (c # cands) r ! i)) \<and>
        roulette_d (c # cands) r ch = dcand_j ((c # cands) ! 0)"
      by (simp add: Let_def)
    then show ?thesis by (intro disjI1 exI [of _ 0]) simp
  next
    case False
    have step: "roulette_d (c # cands) r ch = roulette_d cands ?r ch"
      using False by (simp add: Let_def)
    from Cons.IH [of ?r] show ?thesis
    proof
      assume "\<exists>k<length cands. num_le0 (remainders_d cands ?r ! k) \<and>
        (\<forall>i<k. \<not> num_le0 (remainders_d cands ?r ! i)) \<and>
        roulette_d cands ?r ch = dcand_j (cands ! k)"
      then obtain k where k: "k < length cands" and le: "num_le0 (remainders_d cands ?r ! k)"
        and before: "\<forall>i<k. \<not> num_le0 (remainders_d cands ?r ! i)"
        and res: "roulette_d cands ?r ch = dcand_j (cands ! k)" by blast
      have b: "\<forall>i<Suc k. \<not> num_le0 (remainders_d (c # cands) r ! i)"
      proof (intro allI impI)
        fix i assume "i < Suc k"
        then show "\<not> num_le0 (remainders_d (c # cands) r ! i)"
          using False before by (cases i) simp_all
      qed
      have "Suc k < length (c # cands) \<and> num_le0 (remainders_d (c # cands) r ! Suc k) \<and>
        (\<forall>i<Suc k. \<not> num_le0 (remainders_d (c # cands) r ! i)) \<and>
        roulette_d (c # cands) r ch = dcand_j ((c # cands) ! Suc k)"
        using k le b res step by simp
      then show ?thesis by blast
    next
      assume a: "(\<forall>k<length cands. \<not> num_le0 (remainders_d cands ?r ! k)) \<and>
        roulette_d cands ?r ch = ch"
      have "\<forall>k<length (c # cands). \<not> num_le0 (remainders_d (c # cands) r ! k)"
      proof (intro allI impI)
        fix k assume "k < length (c # cands)"
        then show "\<not> num_le0 (remainders_d (c # cands) r ! k)"
          using False a by (cases k) simp_all
      qed
      then show ?thesis using a step by simp
    qed
  qed
qed

subsection \<open>The example doubles\<close>

lemma fl_int_90: "fl 90 = Fin 90"
  by (rule fl_eq_pos [where k = 6 and m = "90 * 2 ^ 46"]) simp_all

lemma fl_int_neg_90: "fl (- 90) = Fin (- 90)"
  by (rule fl_eq_pos [where k = 6 and m = "- 90 * 2 ^ 46"]) simp_all

lemma fl_int_120: "fl 120 = Fin 120"
  by (rule fl_eq_pos [where k = 6 and m = "120 * 2 ^ 46"]) simp_all

lemma fl_int_neg_120: "fl (- 120) = Fin (- 120)"
  by (rule fl_eq_pos [where k = 6 and m = "- 120 * 2 ^ 46"]) simp_all

lemma fl_int_40: "fl 40 = Fin 40"
  by (rule fl_eq_pos [where k = 5 and m = "40 * 2 ^ 47"]) simp_all

lemma fl_int_neg_40: "fl (- 40) = Fin (- 40)"
  by (rule fl_eq_pos [where k = 5 and m = "- 40 * 2 ^ 47"]) simp_all

lemma fl_int_100: "fl 100 = Fin 100"
  by (rule fl_eq_pos [where k = 6 and m = "100 * 2 ^ 46"]) simp_all

lemma fl_int_neg_100: "fl (- 100) = Fin (- 100)"
  by (rule fl_eq_pos [where k = 6 and m = "- 100 * 2 ^ 46"]) simp_all

lemma fl_int_1: "fl 1 = Fin 1"
  by (rule fl_eq_pos [where k = 0 and m = "1 * 2 ^ 52"]) simp_all

lemma fl_int_200: "fl 200 = Fin 200"
  by (rule fl_eq_pos [where k = 7 and m = "200 * 2 ^ 45"]) simp_all

lemma fl_ex_eps: "fl (1 / 1000000) = Fin ex_eps"
  unfolding ex_eps_def by (rule fl_eq_neg [where k = 20 and m = 4722366482869645]) simp_all

lemma fl_id_ex_eps: "fl ex_eps = Fin ex_eps"
  unfolding ex_eps_def by (rule fl_eq_neg [where k = 20 and m = 4722366482869645]) simp_all

lemma pos_ex_eps: "0 < ex_eps"
  unfolding ex_eps_def by simp

lemma fl_ex_s1: "fl (90 + ex_eps) = Fin ex_s1"
  unfolding ex_eps_def ex_s1_def by (rule fl_eq_pos [where k = 6 and m = 6333187046358504]) simp_all

lemma fl_id_ex_s1: "fl ex_s1 = Fin ex_s1"
  unfolding ex_s1_def by (rule fl_eq_pos [where k = 6 and m = 6333187046358504]) simp_all

lemma pos_ex_s1: "0 < ex_s1"
  unfolding ex_s1_def by simp

lemma fl_ex_s2: "fl (120 + ex_eps) = Fin ex_s2"
  unfolding ex_eps_def ex_s2_def by (rule fl_eq_pos [where k = 6 and m = 8444249371688424]) simp_all

lemma fl_id_ex_s2: "fl ex_s2 = Fin ex_s2"
  unfolding ex_s2_def by (rule fl_eq_pos [where k = 6 and m = 8444249371688424]) simp_all

lemma pos_ex_s2: "0 < ex_s2"
  unfolding ex_s2_def by simp

lemma fl_ex_s3: "fl (40 + ex_eps) = Fin ex_s3"
  unfolding ex_eps_def ex_s3_def by (rule fl_eq_pos [where k = 5 and m = 5629499674950608]) simp_all

lemma fl_id_ex_s3: "fl ex_s3 = Fin ex_s3"
  unfolding ex_s3_def by (rule fl_eq_pos [where k = 5 and m = 5629499674950608]) simp_all

lemma pos_ex_s3: "0 < ex_s3"
  unfolding ex_s3_def by simp

lemma fl_ex_v1: "fl (1 / ex_s1) = Fin ex_v1"
  unfolding ex_s1_def ex_v1_def by (rule fl_eq_neg [where k = 7 and m = 6405119398870046]) simp_all

lemma fl_id_ex_v1: "fl ex_v1 = Fin ex_v1"
  unfolding ex_v1_def by (rule fl_eq_neg [where k = 7 and m = 6405119398870046]) simp_all

lemma pos_ex_v1: "0 < ex_v1"
  unfolding ex_v1_def by simp

lemma fl_ex_v2: "fl (1 / ex_s2) = Fin ex_v2"
  unfolding ex_s2_def ex_v2_def by (rule fl_eq_neg [where k = 7 and m = 4803839562496533]) simp_all

lemma fl_id_ex_v2: "fl ex_v2 = Fin ex_v2"
  unfolding ex_v2_def by (rule fl_eq_neg [where k = 7 and m = 4803839562496533]) simp_all

lemma pos_ex_v2: "0 < ex_v2"
  unfolding ex_v2_def by simp

lemma fl_ex_v3: "fl (1 / ex_s3) = Fin ex_v3"
  unfolding ex_s3_def ex_v3_def by (rule fl_eq_neg [where k = 6 and m = 7205759223648813]) simp_all

lemma fl_id_ex_v3: "fl ex_v3 = Fin ex_v3"
  unfolding ex_v3_def by (rule fl_eq_neg [where k = 6 and m = 7205759223648813]) simp_all

lemma pos_ex_v3: "0 < ex_v3"
  unfolding ex_v3_def by simp

lemma fl_ex_d2: "fl (ex_v1 + ex_v2) = Fin ex_d2"
  unfolding ex_v1_def ex_v2_def ex_d2_def by (rule fl_eq_neg_tie [where k = 6 and f = 5604479480683289]) simp_all

lemma fl_id_ex_d2: "fl ex_d2 = Fin ex_d2"
  unfolding ex_d2_def by (rule fl_eq_neg [where k = 6 and m = 5604479480683290]) simp_all

lemma pos_ex_d2: "0 < ex_d2"
  unfolding ex_d2_def by simp

lemma fl_ex_denom: "fl (ex_d2 + ex_v3) = Fin ex_denom"
  unfolding ex_d2_def ex_v3_def ex_denom_def by (rule fl_eq_neg_tie [where k = 5 and f = 6405119352166051]) simp_all

lemma fl_id_ex_denom: "fl ex_denom = Fin ex_denom"
  unfolding ex_denom_def by (rule fl_eq_neg [where k = 5 and m = 6405119352166052]) simp_all

lemma pos_ex_denom: "0 < ex_denom"
  unfolding ex_denom_def by simp

lemma fl_ex_r0: "fl (ex_u * ex_denom) = Fin ex_r0"
  unfolding ex_u_def ex_denom_def ex_r0_def by (rule fl_eq_neg [where k = 5 and m = 6405119352166051]) simp_all

lemma fl_id_ex_r0: "fl ex_r0 = Fin ex_r0"
  unfolding ex_r0_def by (rule fl_eq_neg [where k = 5 and m = 6405119352166051]) simp_all

lemma pos_ex_r0: "0 < ex_r0"
  unfolding ex_r0_def by simp

lemma fl_ex_r1: "fl (ex_r0 - ex_v1) = Fin ex_r1"
  unfolding ex_r0_def ex_v1_def ex_r1_def by (rule fl_eq_neg_tie [where k = 5 and f = 4803839502448539]) simp_all

lemma fl_id_ex_r1: "fl ex_r1 = Fin ex_r1"
  unfolding ex_r1_def by (rule fl_eq_neg [where k = 5 and m = 4803839502448540]) simp_all

lemma pos_ex_r1: "0 < ex_r1"
  unfolding ex_r1_def by simp

lemma fl_ex_r2: "fl (ex_r1 - ex_v2) = Fin ex_r2"
  unfolding ex_r1_def ex_v2_def ex_r2_def by (rule fl_eq_neg_tie [where k = 6 and f = 7205759223648813]) simp_all

lemma fl_id_ex_r2: "fl ex_r2 = Fin ex_r2"
  unfolding ex_r2_def by (rule fl_eq_neg [where k = 6 and m = 7205759223648814]) simp_all

lemma pos_ex_r2: "0 < ex_r2"
  unfolding ex_r2_def by simp

lemma fl_ex_r3: "fl (ex_r2 - ex_v3) = Fin ex_r3"
  unfolding ex_r2_def ex_v3_def ex_r3_def by (rule fl_eq_neg [where k = 58 and m = 4503599627370496]) simp_all

lemma fl_id_ex_r3: "fl ex_r3 = Fin ex_r3"
  unfolding ex_r3_def by (rule fl_eq_neg [where k = 58 and m = 4503599627370496]) simp_all

lemma pos_ex_r3: "0 < ex_r3"
  unfolding ex_r3_def by simp

lemma fl_ex_h0: "fl (ex_q * ex_denom) = Fin ex_h0"
  unfolding ex_q_def ex_denom_def ex_h0_def by (rule fl_eq_neg [where k = 6 and m = 4803839514124539]) simp_all

lemma fl_id_ex_h0: "fl ex_h0 = Fin ex_h0"
  unfolding ex_h0_def by (rule fl_eq_neg [where k = 6 and m = 4803839514124539]) simp_all

lemma pos_ex_h0: "0 < ex_h0"
  unfolding ex_h0_def by simp

lemma fl_ex_h1: "fl (ex_h0 - ex_v1) = Fin ex_h1"
  unfolding ex_h0_def ex_v1_def ex_h1_def by (rule fl_eq_neg [where k = 8 and m = 6405119258758064]) simp_all

lemma fl_id_ex_h1: "fl ex_h1 = Fin ex_h1"
  unfolding ex_h1_def by (rule fl_eq_neg [where k = 8 and m = 6405119258758064]) simp_all

lemma pos_ex_h1: "0 < ex_h1"
  unfolding ex_h1_def by simp

lemma fl_ex_h2: "fl (ex_h1 - ex_v2) = Fin ex_h2"
  unfolding ex_h1_def ex_v2_def ex_h2_def by (rule fl_eq_neg [where k = 9 and m = "- 6405119732470004"]) simp_all

lemma fl_id_ex_h2: "fl ex_h2 = Fin ex_h2"
  unfolding ex_h2_def by (rule fl_eq_neg [where k = 9 and m = "- 6405119732470004"]) simp_all

lemma pos_ex_h2: "ex_h2 < 0"
  unfolding ex_h2_def by simp

lemma fl_ex_t: "fl (100 + ex_eps) = Fin ex_t"
  unfolding ex_eps_def ex_t_def by (rule fl_eq_pos [where k = 6 and m = 7036874488135144]) simp_all

lemma fl_id_ex_t: "fl ex_t = Fin ex_t"
  unfolding ex_t_def by (rule fl_eq_pos [where k = 6 and m = 7036874488135144]) simp_all

lemma pos_ex_t: "0 < ex_t"
  unfolding ex_t_def by simp

lemma fl_ex_w: "fl (1 / ex_t) = Fin ex_w"
  unfolding ex_t_def ex_w_def by (rule fl_eq_neg [where k = 7 and m = 5764607465388160]) simp_all

lemma fl_id_ex_w: "fl ex_w = Fin ex_w"
  unfolding ex_w_def by (rule fl_eq_neg [where k = 7 and m = 5764607465388160]) simp_all

lemma pos_ex_w: "0 < ex_w"
  unfolding ex_w_def by simp

lemma fl_id_ex_u: "fl ex_u = Fin ex_u"
  unfolding ex_u_def by (rule fl_eq_neg [where k = 1 and m = 9007199254740990]) simp_all

lemma range_ex_u: "0 \<le> ex_u \<and> ex_u < 1"
  unfolding ex_u_def by simp

subsection \<open>The selection on the examples\<close>

lemma pow_ref_zero: "pow_ref b (Fin 0) = Fin 1"
  by simp

lemma pow_ref_one: "0 < x \<Longrightarrow> pow_ref (Fin x) (Fin 1) = fl x"
  by simp

lemma hypot_ref_axis: "hypot_ref (Fin x) (Fin 0) = fl \<bar>x\<bar>"
  by simp

lemma num_sub_Fin: "num_sub (Fin x) (Fin y) = fl (x - y)"
  by (simp add: num_sub_def)

lemma des_line_1:
  "desirability_d libm_ref ex_line ph \<lparr>alpha = 0, beta = 1, rho = 1/2, ants = 1\<rparr> 0 1 = Fin ex_v1"
proof -
  have d: "distance_d libm_ref (ex_line ! 0) (ex_line ! 1) = Fin 90"
    by (simp add: distance_d_def ex_line_def libm_ref_def fl_int_90 fl_zero
        del: hypot_ref.simps add: hypot_ref_axis)
  have s: "ex_s1 \<noteq> 0" using pos_ex_s1 by simp
  show ?thesis
    unfolding desirability_d_def Let_def d
    by (simp add: libm_ref_def fl_zero fl_int_1 fl_ex_eps fl_ex_s1 s fl_ex_v1 pos_ex_v1
        fl_id_ex_v1 del: pow_ref.simps add: pow_ref_zero pow_ref_one)
qed

lemma des_line_2:
  "desirability_d libm_ref ex_line ph \<lparr>alpha = 0, beta = 1, rho = 1/2, ants = 1\<rparr> 0 2 = Fin ex_v2"
proof -
  have d: "distance_d libm_ref (ex_line ! 0) (ex_line ! 2) = Fin 120"
    by (simp add: distance_d_def ex_line_def libm_ref_def fl_int_neg_120 fl_int_120 fl_zero
        del: hypot_ref.simps add: hypot_ref_axis)
  have s: "ex_s2 \<noteq> 0" using pos_ex_s2 by simp
  show ?thesis
    unfolding desirability_d_def Let_def d
    by (simp add: libm_ref_def fl_zero fl_int_1 fl_ex_eps fl_ex_s2 s fl_ex_v2 pos_ex_v2
        fl_id_ex_v2 del: pow_ref.simps add: pow_ref_zero pow_ref_one)
qed

lemma des_line_3:
  "desirability_d libm_ref ex_line ph \<lparr>alpha = 0, beta = 1, rho = 1/2, ants = 1\<rparr> 0 3 = Fin ex_v3"
proof -
  have d: "distance_d libm_ref (ex_line ! 0) (ex_line ! 3) = Fin 40"
    by (simp add: distance_d_def ex_line_def libm_ref_def fl_int_40 fl_zero
        del: hypot_ref.simps add: hypot_ref_axis)
  have s: "ex_s3 \<noteq> 0" using pos_ex_s3 by simp
  show ?thesis
    unfolding desirability_d_def Let_def d
    by (simp add: libm_ref_def fl_zero fl_int_1 fl_ex_eps fl_ex_s3 s fl_ex_v3 pos_ex_v3
        fl_id_ex_v3 del: pow_ref.simps add: pow_ref_zero pow_ref_one)
qed

lemma unvisited_line: "filter (\<lambda>j. j |\<notin>| {|0|}) [0 ..< length ex_line] = [1, 2, 3]"
  by (simp add: ex_line_def upt_rec)

lemma cand_line:
  "candidates_d libm_ref ex_line ph \<lparr>alpha = 0, beta = 1, rho = 1/2, ants = 1\<rparr> {|0|} 0
     [0 ..< length ex_line] ([], Fin 0) = Inr (ex_probs_d, Fin ex_denom)"
proof -
  have l: "0 < length ex_line" by (simp add: ex_line_def)
  show ?thesis
    unfolding candidates_d_eq unvisited_line
    using l by (simp add: des_line_1 [simplified] des_line_2 des_line_3 ex_probs_d_def
        fl_id_ex_v1 fl_ex_d2 fl_ex_denom)
qed

lemma rem_line_top:
  "remainders_d ex_probs_d (num_mul (Fin ex_u) (Fin ex_denom)) = [Fin ex_r1, Fin ex_r2, Fin ex_r3]"
  by (simp add: ex_probs_d_def num_sub_Fin fl_ex_r0 fl_ex_r1 fl_ex_r2 fl_ex_r3)

lemma rem_line_mid:
  "take 2 (remainders_d ex_probs_d (num_mul (Fin ex_q) (Fin ex_denom))) = [Fin ex_h1, Fin ex_h2]"
  by (simp add: ex_probs_d_def num_sub_Fin fl_ex_h0 fl_ex_h1 fl_ex_h2)

lemma sel_line_top:
  "select_next_d libm_ref ex_line ph \<lparr>alpha = 0, beta = 1, rho = 1/2, ants = 1\<rparr> ex_u {|0|} 0
     = Inr 1"
proof -
  have n: "\<not> ex_r1 \<le> 0" "\<not> ex_r2 \<le> 0" "\<not> ex_r3 \<le> 0"
    using pos_ex_r1 pos_ex_r2 pos_ex_r3 by simp_all
  show ?thesis
    unfolding select_next_d_def cand_line
    by (simp add: ex_probs_d_def Let_def num_sub_Fin fl_ex_r0 fl_ex_r1 fl_ex_r2 fl_ex_r3 n)
qed

lemma sel_line_mid:
  "select_next_d libm_ref ex_line ph \<lparr>alpha = 0, beta = 1, rho = 1/2, ants = 1\<rparr> ex_q {|0|} 0
     = Inr 2"
proof -
  have n: "\<not> ex_h1 \<le> 0" "ex_h2 \<le> 0"
    using pos_ex_h1 pos_ex_h2 by simp_all
  show ?thesis
    unfolding select_next_d_def cand_line
    by (simp add: ex_probs_d_def Let_def num_sub_Fin fl_ex_h0 fl_ex_h1 fl_ex_h2 n)
qed

lemma tiny_w: "\<bar>ex_w powr 200\<bar> < 2 powr (- 1075)"
proof -
  have a: "ex_w < 1 / 64" unfolding ex_w_def by simp
  have p: "0 \<le> ex_w" using pos_ex_w by simp
  have "ex_w powr 200 < (1 / 64) powr 200"
    using p a by (intro powr_less_mono2) simp_all
  also have "(1 / 64 :: real) = 2 powr (- 6)" by (simp add: powr_minus)
  also have "(2 powr (- 6)) powr (200::real) = 2 powr (- 6 * 200)" by (simp only: powr_powr)
  also have "(- 6 :: real) * 200 = - 1200" by simp
  also have "2 powr (- 1200 :: real) < 2 powr (- 1075)" by (rule powr_less_mono) simp_all
  finally show ?thesis by simp
qed

lemma pow_w: "pow_ref (Fin ex_w) (Fin 200) = Fin 0"
proof -
  have "pow_ref (Fin ex_w) (Fin 200) = fl (\<bar>ex_w\<bar> powr 200)"
    using pos_ex_w by (simp del: powr_numeral)
  also have "\<bar>ex_w\<bar> = ex_w" using pos_ex_w by simp
  also have "fl (ex_w powr 200) = Fin 0" using tiny_w by (rule fl_tiny)
  finally show ?thesis .
qed

lemma des_far:
  "desirability_d libm_ref ex_far ph \<lparr>alpha = 0, beta = 200, rho = 1/2, ants = 1\<rparr> 0 1 = Fin 0"
proof -
  have d: "distance_d libm_ref (ex_far ! 0) (ex_far ! 1) = Fin 100"
    by (simp add: distance_d_def ex_far_def libm_ref_def fl_int_neg_100 fl_int_100 fl_zero
        del: hypot_ref.simps add: hypot_ref_axis)
  have s: "ex_t \<noteq> 0" using pos_ex_t by simp
  show ?thesis
    unfolding desirability_d_def Let_def d
    by (simp add: libm_ref_def fl_zero fl_int_200 fl_ex_eps fl_ex_t s fl_ex_w pow_w
        del: pow_ref.simps add: pow_ref_zero)
qed

lemma nonempty_ex_probs_d: "ex_probs_d \<noteq> []"
  by (simp add: ex_probs_d_def)

lemma length_far: "length ex_far = 2"
  by (simp add: ex_far_def)

lemma start_far: "start_d (rnd_zero 0) (length ex_far) = Inr 0"
  by (simp add: start_d_def rnd_zero_def fl_zero)

lemma cand_far:
  "candidates_d libm_ref ex_far ph \<lparr>alpha = 0, beta = 200, rho = 1/2, ants = 1\<rparr> {|0|} 0
     [0 ..< length ex_far] ([], Fin 0) = Inr ([\<lparr>dcand_j = 1, dcand_val = Fin 0\<rparr>], Fin 0)"
proof -
  have f: "filter (\<lambda>j. j |\<notin>| {|0|}) [0 ..< length ex_far] = [1]"
    by (simp add: ex_far_def upt_rec)
  show ?thesis
    unfolding candidates_d_eq f by (simp add: length_far des_far [simplified] fl_zero)
qed

section \<open>The claims\<close>

subsection \<open>Fewer than two cities\<close>

text \<open>
  C7. With fewer than two cities \<^verbatim>\<open>runIteration\<close> returns at once: the pheromones, the
  best record and the iteration counter are what they were (the whole model is
  unchanged), and no random number is drawn.
\<close>

theorem runIteration_few_cities:
  "length (cities m) < 2 \<Longrightarrow> runIteration p rnd i m = Inr (m, i)"
  by (simp add: runIteration_def)

theorem runIteration_few_cities_witness:
  "length (cities (ex_model\<lparr>cities := []\<rparr>)) < 2 \<and>
   runIteration \<lparr>alpha = 1, beta = 2, rho = 1/2, ants = 10\<rparr> rnd_zero 0
     (ex_model\<lparr>cities := []\<rparr>) = Inr (ex_model\<lparr>cities := []\<rparr>, 0)"
  using runIteration_few_cities [of "ex_model\<lparr>cities := []\<rparr>"
      "\<lparr>alpha = 1, beta = 2, rho = 1/2, ants = 10\<rparr>" rnd_zero 0]
  by simp

subsection \<open>No ants\<close>

text \<open>
  C2, as the code has it. With at least two cities and \<^verbatim>\<open>ants\<close> at most 0 the loop over
  the ants makes no pass: no tour is built, no random number is drawn and the best
  record stays. There is no guard on \<^verbatim>\<open>ants\<close>, though: every stored pheromone level is
  still multiplied by \<open>1 - rho\<close> and the iteration counter still goes up by one.
\<close>

theorem runIteration_no_ants:
  assumes "2 \<le> length (cities m)" and "ants p \<le> 0"
  shows "runIteration p rnd i m =
    Inr (m\<lparr>pher := evaporate (rho p) (pher m), iter := iter m + 1\<rparr>, i)"
  using assms by (simp add: runIteration_def deposit_loop_def)

theorem runIteration_no_ants_witness:
  "2 \<le> length (cities ex_model) \<and> ants \<lparr>alpha = 1, beta = 2, rho = 1/2, ants = 0\<rparr> \<le> 0 \<and>
   runIteration \<lparr>alpha = 1, beta = 2, rho = 1/2, ants = 0\<rparr> rnd_zero 0 ex_model =
     Inr (ex_model\<lparr>pher := evaporate (1/2) (pher ex_model), iter := iter ex_model + 1\<rparr>, 0)"
  using runIteration_no_ants [of ex_model "\<lparr>alpha = 1, beta = 2, rho = 1/2, ants = 0\<rparr>" rnd_zero 0]
  by (simp add: length_ex)

text \<open>The claim as stated fails: with \<^verbatim>\<open>ants = 0\<close> and \<^verbatim>\<open>rho = 0.5\<close> the level of the
  only edge of two cities goes from 1 to 0.5.\<close>

theorem no_ants_counterexample:
  "runIteration \<lparr>alpha = 1, beta = 2, rho = 1/2, ants = 0\<rparr> rnd_zero 0 ex_model =
     Inr (ex_model\<lparr>pher := [''0-1'' \<mapsto> 1/2], iter := 1\<rparr>, 0)
   \<and> pher ex_model = [''0-1'' \<mapsto> 1]
   \<and> [''0-1'' \<mapsto> 1/2] \<noteq> [''0-1'' \<mapsto> (1::real)]"
proof -
  have e: "evaporate (1/2) [''0-1'' \<mapsto> 1] = [''0-1'' \<mapsto> 1/2]"
    by (simp add: evaporate_def fun_eq_iff)
  have n: "[''0-1'' \<mapsto> 1/2] \<noteq> [''0-1'' \<mapsto> (1::real)]"
    by (simp add: fun_eq_iff)
  have i: "iter ex_model = 0" by (simp add: ex_model_def)
  show ?thesis
    by (simp add: runIteration_def deposit_loop_def length_ex pher_ex e n i)
qed

subsection \<open>Roulette selection\<close>

text \<open>
  C3, as the code has it, in double precision. When the candidate loop succeeds with a
  non-empty list, the candidates are the unvisited cities in increasing order and
  \<^verbatim>\<open>denom\<close> is their desirabilities added up from the left, every sum rounded. The
  remainder starts as the rounded product of the draw and \<^verbatim>\<open>denom\<close>, and every
  subtraction is rounded. The next city is the first candidate at which the remainder
  is at most 0; if no remainder is, because rounding left it positive or because it is
  \<^verbatim>\<open>NaN\<close>, the result is the value \<^verbatim>\<open>chosen\<close> was given before the loop, \<^verbatim>\<open>probs[0].j\<close>:
  the first unvisited candidate, not the last.
\<close>

theorem select_next_d_roulette:
  assumes c: "candidates_d lm cs ph p visited cur [0 ..< length cs] ([], Fin 0) = Inr (probs, denom)"
    and ne: "probs \<noteq> []"
  shows "map dcand_j probs = filter (\<lambda>j. j |\<notin>| visited) [0 ..< length cs] \<and>
     denom = foldl num_add (Fin 0) (map dcand_val probs) \<and>
     ((\<exists>k<length probs. num_le0 (remainders_d probs (num_mul (Fin u) denom) ! k) \<and>
          (\<forall>i<k. \<not> num_le0 (remainders_d probs (num_mul (Fin u) denom) ! i)) \<and>
          select_next_d lm cs ph p u visited cur = Inr (dcand_j (probs ! k)))
      \<or> ((\<forall>k<length probs. \<not> num_le0 (remainders_d probs (num_mul (Fin u) denom) ! k)) \<and>
          select_next_d lm cs ph p u visited cur = Inr (dcand_j (hd probs))))"
proof -
  let ?js = "filter (\<lambda>j. j |\<notin>| visited) [0 ..< length cs]"
  from c have probs: "probs = map (\<lambda>j. \<lparr>dcand_j = j, dcand_val = desirability_d lm cs ph p cur j\<rparr>) ?js"
    and denom: "denom = foldl num_add (Fin 0) (map (desirability_d lm cs ph p cur) ?js)"
    by (simp_all add: candidates_d_eq split: if_splits)
  have js: "map dcand_j probs = ?js"
    unfolding probs by (simp add: comp_def)
  have vals: "map dcand_val probs = map (desirability_d lm cs ph p cur) ?js"
    unfolding probs by (simp add: comp_def)
  have sum: "denom = foldl num_add (Fin 0) (map dcand_val probs)"
    unfolding vals denom ..
  from ne obtain c0 rest where pr: "probs = c0 # rest" by (cases probs) auto
  have sel: "select_next_d lm cs ph p u visited cur =
      Inr (roulette_d probs (num_mul (Fin u) denom) (dcand_j (hd probs)))"
    using c pr by (simp add: select_next_d_def)
  from roulette_d_remainders [of probs "num_mul (Fin u) denom" "dcand_j (hd probs)"]
  have "(\<exists>k<length probs. num_le0 (remainders_d probs (num_mul (Fin u) denom) ! k) \<and>
          (\<forall>i<k. \<not> num_le0 (remainders_d probs (num_mul (Fin u) denom) ! i)) \<and>
          select_next_d lm cs ph p u visited cur = Inr (dcand_j (probs ! k)))
      \<or> ((\<forall>k<length probs. \<not> num_le0 (remainders_d probs (num_mul (Fin u) denom) ! k)) \<and>
          select_next_d lm cs ph p u visited cur = Inr (dcand_j (hd probs)))"
    unfolding sel by simp
  with js sum show ?thesis by blast
qed

theorem select_next_d_roulette_witness:
  "candidates_d libm_ref ex_line (fresh_d ex_line) \<lparr>alpha = 0, beta = 1, rho = 1/2, ants = 1\<rparr>
       {|0|} 0 [0 ..< length ex_line] ([], Fin 0) = Inr (ex_probs_d, Fin ex_denom) \<and>
   ex_probs_d \<noteq> [] \<and>
   map dcand_j ex_probs_d = [1, 2, 3] \<and>
   Fin ex_denom = foldl num_add (Fin 0) (map dcand_val ex_probs_d) \<and>
   take 2 (remainders_d ex_probs_d (num_mul (Fin ex_q) (Fin ex_denom))) = [Fin ex_h1, Fin ex_h2] \<and>
   0 < ex_h1 \<and> ex_h2 < 0 \<and>
   select_next_d libm_ref ex_line (fresh_d ex_line) \<lparr>alpha = 0, beta = 1, rho = 1/2, ants = 1\<rparr>
       ex_q {|0|} 0 = Inr (dcand_j (ex_probs_d ! 1))"
proof -
  note t = select_next_d_roulette [OF cand_line [of "fresh_d ex_line"] nonempty_ex_probs_d,
      where u = ex_q]
  have a: "map dcand_j ex_probs_d = [1, 2, 3]"
    using conjunct1 [OF t] unfolding unvisited_line .
  have b: "Fin ex_denom = foldl num_add (Fin 0) (map dcand_val ex_probs_d)"
    by (rule conjunct1 [OF conjunct2 [OF t]])
  have s: "select_next_d libm_ref ex_line (fresh_d ex_line)
      \<lparr>alpha = 0, beta = 1, rho = 1/2, ants = 1\<rparr> ex_q {|0|} 0 = Inr (dcand_j (ex_probs_d ! 1))"
    using sel_line_mid [of "fresh_d ex_line"] by (simp add: ex_probs_d_def)
  show ?thesis
    by (intro conjI) (rule cand_line nonempty_ex_probs_d a b rem_line_mid pos_ex_h1 pos_ex_h2 s)+
qed

text \<open>The claim as stated fails. With the four cities of \<open>ex_line\<close>, \<^verbatim>\<open>alpha = 0\<close>,
  \<^verbatim>\<open>beta = 1\<close> and an ant at city 0 that has visited no other, the candidates are the
  cities 1, 2 and 3. The draw \<open>1 - 2^-52\<close> is a double in \<open>[0, 1)\<close>; the three
  remainders it leads to are \<open>ex_r1\<close>, \<open>ex_r2\<close> and \<open>ex_r3 = 2^-58\<close>, all positive, and
  the loop leaves city 1, the first candidate, where the claim has city 3, the last.\<close>

theorem roulette_d_fallback_counterexample:
  "fl ex_u = Fin ex_u \<and> 0 \<le> ex_u \<and> ex_u < 1 \<and>
   candidates_d libm_ref ex_line (fresh_d ex_line) \<lparr>alpha = 0, beta = 1, rho = 1/2, ants = 1\<rparr>
       {|0|} 0 [0 ..< length ex_line] ([], Fin 0) = Inr (ex_probs_d, Fin ex_denom) \<and>
   remainders_d ex_probs_d (num_mul (Fin ex_u) (Fin ex_denom)) = [Fin ex_r1, Fin ex_r2, Fin ex_r3] \<and>
   0 < ex_r1 \<and> 0 < ex_r2 \<and> 0 < ex_r3 \<and>
   select_next_d libm_ref ex_line (fresh_d ex_line) \<lparr>alpha = 0, beta = 1, rho = 1/2, ants = 1\<rparr>
       ex_u {|0|} 0 = Inr 1 \<and>
   dcand_j (hd ex_probs_d) = 1 \<and> dcand_j (last ex_probs_d) = 3"
proof -
  have h: "dcand_j (hd ex_probs_d) = 1" by (simp add: ex_probs_d_def)
  have l: "dcand_j (last ex_probs_d) = 3" by (simp add: ex_probs_d_def)
  show ?thesis
    by (intro conjI) (rule fl_id_ex_u conjunct1 [OF range_ex_u] conjunct2 [OF range_ex_u]
        cand_line rem_line_top pos_ex_r1 pos_ex_r2 pos_ex_r3 sel_line_top h l)+
qed

subsection \<open>Editing the city set\<close>

text \<open>
  C4. The claim asks that a change of the city set reinitialise the pheromones and clear
  the best record. The click handler does the first only: removing the third of three
  cities leaves the pheromones uniform over the two that remain, while the best tour is
  still \<open>[0, 1, 2, 0]\<close>, which names a city that no longer exists, and the best length
  is still 200. The redraw that ends the handler then reads the missing city and throws,
  where before the click it drew the tour.
\<close>

theorem canvas_click_keeps_best:
  "canvas_click 100 0 ex_model3 =
     ex_model3\<lparr>cities := ex_cities, pher := [''0-1'' \<mapsto> 1]\<rparr>
   \<and> bestTour (canvas_click 100 0 ex_model3) = Some [0, 1, 2, 0]
   \<and> bestDist (canvas_click 100 0 ex_model3) = Some 200
   \<and> length (cities (canvas_click 100 0 ex_model3)) = 2
   \<and> redrawAll ex_model3 = Inr ()
   \<and> redrawAll (canvas_click 100 0 ex_model3) = Inl TypeError"
proof -
  have hit: "click_hit 100 0 (cities ex_model3) (length (cities ex_model3)) = Some 2"
    by (simp add: ex_model3_def ex_cities_def numeral_3_eq_3)
  have cs: "take 2 (cities ex_model3) @ drop 3 (cities ex_model3) = ex_cities"
    by (simp add: ex_model3_def ex_cities_def)
  have eq: "canvas_click 100 0 ex_model3 = ex_model3\<lparr>cities := ex_cities, pher := [''0-1'' \<mapsto> 1]\<rparr>"
    by (simp add: canvas_click_def hit cs init_ex Let_def)
  show ?thesis unfolding eq
    by (simp add: ex_model3_def ex_cities_def redrawAll_def drawTour_def)
qed

subsection \<open>Evaporation\<close>




subsection \<open>Tours\<close>

text \<open>
  C1. With at least two cities and a random source that keeps its contract, the loop
  over the ants of \<^verbatim>\<open>runIteration\<close> ends without an exception, builds one tour per ant,
  and every tour has \<open>n + 1\<close> entries, starts and ends at the same city and holds every
  city index exactly once before the closing entry.
\<close>

theorem tours_hamiltonian:
  assumes "2 \<le> length (cities m)" and "\<forall>k. 0 \<le> rnd k \<and> rnd k < 1"
  shows "\<exists>tours tourD i' m'.
    ants_loop (cities m) (pher m) p rnd (nat (ants p)) i ([], []) = Inr (tours, tourD, i') \<and>
    runIteration p rnd i m = Inr (m', i') \<and>
    length tours = nat (ants p) \<and>
    (\<forall>t \<in> set tours. hamiltonian_cycle (length (cities m)) t)"
proof -
  have n: "0 < length (cities m)" using assms(1) by linarith
  from ants_loop_ok [OF n assms(2), of "[]" "pher m" p "nat (ants p)" i "[]"]
  obtain tours tourD where
    l: "ants_loop (cities m) (pher m) p rnd (nat (ants p)) i ([], []) =
      Inr (tours, tourD, i + nat (ants p) * length (cities m))"
    and len: "length tours = nat (ants p)"
    and h: "list_all (hamiltonian_cycle (length (cities m))) tours"
    by auto
  have "\<exists>m'. runIteration p rnd i m = Inr (m', i + nat (ants p) * length (cities m))"
    using assms(1) l by (simp add: runIteration_def Let_def)
  with l len h show ?thesis by (auto simp: list_all_iff)
qed

theorem tours_hamiltonian_witness:
  "2 \<le> length (cities ex_model) \<and> (\<forall>k. 0 \<le> rnd_zero k \<and> rnd_zero k < 1) \<and>
   ants_loop (cities ex_model) (pher ex_model) \<lparr>alpha = 1, beta = 2, rho = 1/2, ants = 1\<rparr>
     rnd_zero (nat (ants \<lparr>alpha = 1, beta = 2, rho = 1/2, ants = 1\<rparr>)) 0 ([], [])
     = Inr ([[0, 1, 0]], [2], 2) \<and>
   hamiltonian_cycle (length (cities ex_model)) [0, 1, 0]"
proof -
  have c: "cities ex_model = ex_cities" by (simp add: ex_model_def)
  have r: "\<forall>k. 0 \<le> rnd_zero k \<and> rnd_zero k < 1" by (simp add: rnd_zero_def)
  have l: "ants_loop (cities ex_model) (pher ex_model) \<lparr>alpha = 1, beta = 2, rho = 1/2, ants = 1\<rparr>
     rnd_zero (nat (ants \<lparr>alpha = 1, beta = 2, rho = 1/2, ants = 1\<rparr>)) 0 ([], [])
     = Inr ([[0, 1, 0]], [2], 2)"
    by (simp add: c ant_ex)
  from tours_hamiltonian [of ex_model rnd_zero "\<lparr>alpha = 1, beta = 2, rho = 1/2, ants = 1\<rparr>" 0] r
    length_ex l
  have "hamiltonian_cycle (length (cities ex_model)) [0, 1, 0]" by auto
  with r l length_ex show ?thesis by simp
qed

subsection \<open>Termination of the tour construction\<close>

text \<open>
  C10, as the code has it, in double precision. With at least two cities (an array
  holds fewer than \<open>2^32\<close> elements), any pheromone store, any library functions and a
  first draw that is a double in \<open>[0, 1)\<close>, hence at most \<open>1 - 2^-53\<close>, the start
  \<^verbatim>\<open>Math.floor(Math.random() * n)\<close> is a city and the loop \<^verbatim>\<open>while(visited.size < n)\<close>
  started from it returns a tour of \<open>n\<close> cities after exactly \<open>n - 1\<close> passes (each pass
  reads one draw, and the position in the random stream moves from \<open>i + 1\<close> to
  \<open>i + 1 + (n - 1)\<close>). In every pass, that is for every set of fewer than \<open>n\<close> visited
  cities among the \<open>n\<close> and every current city, the list of candidates is non-empty,
  consists of exactly the unvisited cities, the city selected is one of the candidates,
  and the visited set grows by exactly one. The desirabilities need not be strictly
  positive, and nothing above rests on their sign.
\<close>

theorem walk_d_terminates:
  assumes n: "2 \<le> length cs" and m: "length cs \<le> 2 ^ 32"
    and u: "0 \<le> rnd i \<and> rnd i \<le> 1 - 1 / 2 ^ 53"
  shows "(\<exists>start tour. start_d (rnd i) (length cs) = Inr start \<and> start < length cs \<and>
        walk_d lm cs ph p rnd (i + 1) {|start|} [start] start
          = Inr (tour, i + 1 + (length cs - 1)) \<and> length tour = length cs) \<and>
    (\<forall>visited cur v. cur < length cs \<and> fset visited \<subseteq> {..<length cs} \<and>
        fcard visited < length cs \<longrightarrow>
      (\<exists>probs denom chosen.
         candidates_d lm cs ph p visited cur [0 ..< length cs] ([], Fin 0) = Inr (probs, denom) \<and>
         probs \<noteq> [] \<and>
         dcand_j ` set probs = {j. j < length cs \<and> j |\<notin>| visited} \<and>
         select_next_d lm cs ph p v visited cur = Inr chosen \<and>
         chosen \<in> dcand_j ` set probs \<and>
         fcard (finsert chosen visited) = fcard visited + 1))"
proof (intro conjI allI impI)
  have pos: "1 \<le> length cs" using n by linarith
  from start_d_ok [OF conjunct1 [OF u] conjunct2 [OF u] pos m]
  obtain start where sd: "start_d (rnd i) (length cs) = Inr start" and st: "start < length cs"
    by blast
  from walk_d_ok [of "[start]" cs "{|start|}" start lm ph p rnd "i + 1"] st
  obtain tour where w: "walk_d lm cs ph p rnd (i + 1) {|start|} [start] start =
      Inr (tour, i + 1 + (length cs - length [start]))"
    and d: "distinct tour" and s: "set tour = {..<length cs}"
    by auto
  have "length tour = length cs"
    using d s by (metis card_lessThan distinct_card)
  with w sd st show "\<exists>start tour. start_d (rnd i) (length cs) = Inr start \<and> start < length cs \<and>
        walk_d lm cs ph p rnd (i + 1) {|start|} [start] start
          = Inr (tour, i + 1 + (length cs - 1)) \<and> length tour = length cs"
    by simp
next
  fix visited cur v
  assume a: "cur < length cs \<and> fset visited \<subseteq> {..<length cs} \<and> fcard visited < length cs"
  let ?js = "filter (\<lambda>j. j |\<notin>| visited) [0 ..< length cs]"
  let ?probs = "map (\<lambda>j. \<lparr>dcand_j = j, dcand_val = desirability_d lm cs ph p cur j\<rparr>) ?js"
  let ?denom = "foldl num_add (Fin 0) (map (desirability_d lm cs ph p cur) ?js)"
  have ne: "?js \<noteq> []" using unvisited_nonempty a by blast
  have c: "candidates_d lm cs ph p visited cur [0 ..< length cs] ([], Fin 0) = Inr (?probs, ?denom)"
    using a by (simp add: candidates_d_eq)
  have pne: "?probs \<noteq> []" using ne by simp
  have img: "dcand_j ` set ?probs = {j. j < length cs \<and> j |\<notin>| visited}"
    by (auto simp: image_iff)
  from select_next_d_ok [of cur cs visited lm ph p v] a
  obtain chosen where sel: "select_next_d lm cs ph p v visited cur = Inr chosen"
    and cl: "chosen < length cs" and fresh: "chosen |\<notin>| visited" by blast
  have mem: "chosen \<in> dcand_j ` set ?probs" unfolding img using cl fresh by simp
  have grow: "fcard (finsert chosen visited) = fcard visited + 1"
    using fresh by (simp add: fcard_finsert_disjoint)
  from c pne img sel mem grow
  show "\<exists>probs denom chosen.
         candidates_d lm cs ph p visited cur [0 ..< length cs] ([], Fin 0) = Inr (probs, denom) \<and>
         probs \<noteq> [] \<and>
         dcand_j ` set probs = {j. j < length cs \<and> j |\<notin>| visited} \<and>
         select_next_d lm cs ph p v visited cur = Inr chosen \<and>
         chosen \<in> dcand_j ` set probs \<and>
         fcard (finsert chosen visited) = fcard visited + 1"
    by blast
qed

theorem walk_d_terminates_witness:
  "2 \<le> length ex_far \<and> length ex_far \<le> 2 ^ 32 \<and>
   (0 \<le> rnd_zero 0 \<and> rnd_zero 0 \<le> 1 - 1 / 2 ^ 53) \<and>
   start_d (rnd_zero 0) (length ex_far) = Inr 0 \<and>
   (\<exists>tour. walk_d libm_ref ex_far (fresh_d ex_far) \<lparr>alpha = 0, beta = 200, rho = 1/2, ants = 1\<rparr>
      rnd_zero 1 {|0|} [0] 0 = Inr (tour, 2) \<and> length tour = 2) \<and>
   0 < length ex_far \<and> fset {|0::nat|} \<subseteq> {..<length ex_far} \<and>
   fcard {|0::nat|} < length ex_far \<and>
   (\<exists>probs denom chosen.
      candidates_d libm_ref ex_far (fresh_d ex_far) \<lparr>alpha = 0, beta = 200, rho = 1/2, ants = 1\<rparr>
        {|0|} 0 [0 ..< length ex_far] ([], Fin 0) = Inr (probs, denom) \<and>
      probs \<noteq> [] \<and>
      select_next_d libm_ref ex_far (fresh_d ex_far) \<lparr>alpha = 0, beta = 200, rho = 1/2, ants = 1\<rparr>
        0 {|0|} 0 = Inr chosen \<and>
      fcard (finsert chosen {|0|}) = 2)"
proof -
  have l2: "2 \<le> length ex_far" by (simp add: length_far)
  have l32: "length ex_far \<le> 2 ^ 32" by (simp add: length_far)
  have r: "0 \<le> rnd_zero 0 \<and> rnd_zero 0 \<le> 1 - 1 / 2 ^ 53" by (simp add: rnd_zero_def)
  have h: "0 < length ex_far \<and> fset {|0::nat|} \<subseteq> {..<length ex_far} \<and>
      fcard {|0::nat|} < length ex_far"
    by (simp add: length_far fcard_finsert_if)
  note t = walk_d_terminates [where cs = ex_far and rnd = rnd_zero and i = 0 and lm = libm_ref
      and ph = "fresh_d ex_far" and p = "\<lparr>alpha = 0, beta = 200, rho = 1/2, ants = 1\<rparr>",
      OF l2 l32 r]
  have t1: "\<exists>tour. walk_d libm_ref ex_far (fresh_d ex_far)
      \<lparr>alpha = 0, beta = 200, rho = 1/2, ants = 1\<rparr> rnd_zero 1 {|0|} [0] 0 = Inr (tour, 2) \<and>
      length tour = 2"
  proof -
    from conjunct1 [OF t] obtain start tour where
      s: "start_d (rnd_zero 0) (length ex_far) = Inr start"
      and w: "walk_d libm_ref ex_far (fresh_d ex_far)
        \<lparr>alpha = 0, beta = 200, rho = 1/2, ants = 1\<rparr> rnd_zero (0 + 1) {|start|} [start] start
        = Inr (tour, 0 + 1 + (length ex_far - 1))"
      and lt: "length tour = length ex_far" by blast
    from s have s0: "start = 0" unfolding start_far by simp
    have i1: "0 + 1 = (1::nat)" by simp
    have i2: "1 + (2 - 1) = (2::nat)" by simp
    from w lt show ?thesis unfolding s0 i1 length_far i2 by blast
  qed
  have t2: "\<exists>probs denom chosen.
      candidates_d libm_ref ex_far (fresh_d ex_far) \<lparr>alpha = 0, beta = 200, rho = 1/2, ants = 1\<rparr>
        {|0|} 0 [0 ..< length ex_far] ([], Fin 0) = Inr (probs, denom) \<and>
      probs \<noteq> [] \<and>
      select_next_d libm_ref ex_far (fresh_d ex_far) \<lparr>alpha = 0, beta = 200, rho = 1/2, ants = 1\<rparr>
        0 {|0|} 0 = Inr chosen \<and>
      fcard (finsert chosen {|0|}) = 2"
  proof -
    from conjunct2 [OF t, rule_format, of 0 "{|0|}" 0] h
    obtain probs denom chosen where
      c: "candidates_d libm_ref ex_far (fresh_d ex_far)
           \<lparr>alpha = 0, beta = 200, rho = 1/2, ants = 1\<rparr>
           {|0|} 0 [0 ..< length ex_far] ([], Fin 0) = Inr (probs, denom)"
      and pne: "probs \<noteq> []"
      and sel: "select_next_d libm_ref ex_far (fresh_d ex_far)
           \<lparr>alpha = 0, beta = 200, rho = 1/2, ants = 1\<rparr> 0 {|0|} 0 = Inr chosen"
      and grow: "fcard (finsert chosen {|0|}) = fcard {|0::nat|} + 1"
      by blast
    have f: "fcard {|0::nat|} + 1 = 2" by (simp add: fcard_finsert_if)
    have g: "fcard (finsert chosen {|0|}) = 2" using grow unfolding f .
    from c pne sel g show ?thesis by blast
  qed
  note h1 = conjunct1 [OF h] and h2 = conjunct1 [OF conjunct2 [OF h]]
    and h3 = conjunct2 [OF conjunct2 [OF h]]
  show ?thesis
    by (intro conjI) (rule l2 l32 conjunct1 [OF r] conjunct2 [OF r] start_far t1 h1 h2 h3 t2)+
qed

text \<open>The claim as stated fails: a desirability is not always strictly positive. With the
  two cities of \<open>ex_far\<close>, at distance 100, \<^verbatim>\<open>alpha = 0\<close> and \<^verbatim>\<open>beta = 200\<close>, the value
  \<^verbatim>\<open>eta = 1 / (100 + 1e-6)\<close> is below \<open>1/64\<close> and its power is below \<open>2^-1200\<close>, less than
  half the smallest double: \<^verbatim>\<open>Math.pow(eta, 200)\<close> is 0, and so is the desirability of the
  only candidate.\<close>

theorem desirability_d_zero_counterexample:
  "2 \<le> length ex_far \<and>
   desirability_d libm_ref ex_far (fresh_d ex_far) \<lparr>alpha = 0, beta = 200, rho = 1/2, ants = 1\<rparr>
     0 1 = Fin 0 \<and>
   \<not> num_pos (desirability_d libm_ref ex_far (fresh_d ex_far)
     \<lparr>alpha = 0, beta = 200, rho = 1/2, ants = 1\<rparr> 0 1) \<and>
   candidates_d libm_ref ex_far (fresh_d ex_far) \<lparr>alpha = 0, beta = 200, rho = 1/2, ants = 1\<rparr>
     {|0|} 0 [0 ..< length ex_far] ([], Fin 0) = Inr ([\<lparr>dcand_j = 1, dcand_val = Fin 0\<rparr>], Fin 0)"
proof -
  have l2: "2 \<le> length ex_far" by (simp add: length_far)
  have n: "\<not> num_pos (desirability_d libm_ref ex_far (fresh_d ex_far)
     \<lparr>alpha = 0, beta = 200, rho = 1/2, ants = 1\<rparr> 0 1)"
    unfolding des_far by simp
  show ?thesis
    by (intro conjI) (rule l2 des_far n cand_far)+
qed

subsection \<open>Pheromone levels stay non-negative\<close>




subsection \<open>The best record\<close>

text \<open>
  C5. In an iteration over at least two cities the best record is replaced exactly when
  the length of some ant's tour is strictly below the best length the iteration started
  with; it then holds the least of the lengths and the tour of the first ant that
  reached it (a later ant with an equal length does not replace it); otherwise the
  record is unchanged. The same holds of the loop over the tours taken alone. Over any
  sequence of iterations the best length never increases.
\<close>

theorem best_record_update:
  "(2 \<le> length (cities m) \<and> runIteration p rnd i m = Inr (m', i') \<longrightarrow>
     (\<exists>tours tourD.
        ants_loop (cities m) (pher m) p rnd (nat (ants p)) i ([], []) = Inr (tours, tourD, i') \<and>
        length tours = length tourD \<and>
        (if \<exists>D \<in> set tourD. improves D (bestDist m)
         then \<exists>k<length tourD. (\<forall>D \<in> set tourD. tourD ! k \<le> D) \<and>
                (\<forall>j<k. tourD ! k < tourD ! j) \<and>
                bestDist m' = Some (tourD ! k) \<and> bestTour m' = Some (tours ! k)
         else bestDist m' = bestDist m \<and> bestTour m' = bestTour m)))
   \<and> (length ts = length Ds \<longrightarrow>
        (if \<exists>D \<in> set Ds. improves D (bestDist m)
         then \<exists>k<length Ds. (\<forall>D \<in> set Ds. Ds ! k \<le> D) \<and> (\<forall>j<k. Ds ! k < Ds ! j) \<and>
                bestDist (deposit_loop ts Ds m) = Some (Ds ! k) \<and>
                bestTour (deposit_loop ts Ds m) = Some (ts ! k)
         else bestDist (deposit_loop ts Ds m) = bestDist m \<and>
              bestTour (deposit_loop ts Ds m) = bestTour m))
   \<and> (run_iterations ps rnd i m = Inr (m'', i'') \<longrightarrow> best_le (bestDist m'') (bestDist m))"
proof (intro conjI impI)
  assume a: "2 \<le> length (cities m) \<and> runIteration p rnd i m = Inr (m', i')"
  from runIteration_best [of m p rnd i m' i'] a
  show "\<exists>tours tourD.
        ants_loop (cities m) (pher m) p rnd (nat (ants p)) i ([], []) = Inr (tours, tourD, i') \<and>
        length tours = length tourD \<and>
        (if \<exists>D \<in> set tourD. improves D (bestDist m)
         then \<exists>k<length tourD. (\<forall>D \<in> set tourD. tourD ! k \<le> D) \<and>
                (\<forall>j<k. tourD ! k < tourD ! j) \<and>
                bestDist m' = Some (tourD ! k) \<and> bestTour m' = Some (tours ! k)
         else bestDist m' = bestDist m \<and> bestTour m' = bestTour m)"
    by (auto split: if_splits)
next
  assume "length ts = length Ds"
  from deposit_loop_best [OF this, of m]
  show "if \<exists>D \<in> set Ds. improves D (bestDist m)
         then \<exists>k<length Ds. (\<forall>D \<in> set Ds. Ds ! k \<le> D) \<and> (\<forall>j<k. Ds ! k < Ds ! j) \<and>
                bestDist (deposit_loop ts Ds m) = Some (Ds ! k) \<and>
                bestTour (deposit_loop ts Ds m) = Some (ts ! k)
         else bestDist (deposit_loop ts Ds m) = bestDist m \<and>
              bestTour (deposit_loop ts Ds m) = bestTour m"
    by (auto split: if_splits)
next
  assume "run_iterations ps rnd i m = Inr (m'', i'')"
  then show "best_le (bestDist m'') (bestDist m)" by (rule run_iterations_best_le)
qed

theorem best_record_update_witness:
  "2 \<le> length (cities ex_model) \<and>
   runIteration \<lparr>alpha = 1, beta = 2, rho = 1/2, ants = 1\<rparr> rnd_zero 0 ex_model = Inr (ex_after, 2) \<and>
   run_iterations [\<lparr>alpha = 1, beta = 2, rho = 1/2, ants = 1\<rparr>] rnd_zero 0 ex_model
     = Inr (ex_after, 2) \<and>
   bestDist ex_model = None \<and> bestDist ex_after = Some 2 \<and> bestTour ex_after = Some [0, 1, 0] \<and>
   best_le (bestDist ex_after) (bestDist ex_model) \<and>
   length [[0, 1, 0], [1, 0, 1::nat]] = length [2, 2::real] \<and>
   bestTour (deposit_loop [[0, 1, 0], [1, 0, 1]] [2, 2] ex_model) = Some [0, 1, 0] \<and>
   bestDist (deposit_loop [[0, 1, 0], [1, 0, 1]] [2, 2] ex_model) = Some 2"
proof -
  have run: "run_iterations [\<lparr>alpha = 1, beta = 2, rho = 1/2, ants = 1\<rparr>] rnd_zero 0 ex_model
     = Inr (ex_after, 2)"
    by (simp add: run_ex)
  have b: "bestDist ex_model = None" "bestDist ex_after = Some 2" "bestTour ex_after = Some [0, 1, 0]"
    by (simp_all add: ex_model_def ex_after_def)
  from best_record_update [of ex_model "\<lparr>alpha = 1, beta = 2, rho = 1/2, ants = 1\<rparr>" rnd_zero 0
      ex_after 2 "[[0, 1, 0], [1, 0, 1]]" "[2, 2]" "[\<lparr>alpha = 1, beta = 2, rho = 1/2, ants = 1\<rparr>]"
      ex_after 2] run
  have le: "best_le (bestDist ex_after) (bestDist ex_model)" by blast
  have len: "length [[0, 1, 0], [1, 0, 1::nat]] = length [2, 2::real]" by simp
  have l2: "2 \<le> length (cities ex_model)" by (simp add: length_ex)
  show ?thesis
    by (intro conjI) (rule l2 run_ex run b le len conjunct1 [OF tie_ex] conjunct2 [OF tie_ex])+
qed

subsection \<open>Edge keys and the initial store\<close>

text \<open>
  C9. The key of an edge does not depend on the order of its two cities. After
  \<^verbatim>\<open>initPheromones\<close> over \<open>n\<close> cities the keys of the store are the keys of the pairs
  \<open>i < j < n\<close>, different pairs have different keys, so that there are exactly
  \<open>n (n - 1) / 2\<close> of them, and every stored level is 1.
\<close>

theorem edge_keys:
  "edgeKey a b = edgeKey b a \<and>
   dom (initPheromones cs) = (\<lambda>(i, j). edgeKey i j) ` edge_pairs (length cs) \<and>
   inj_on (\<lambda>(i, j). edgeKey i j) (edge_pairs (length cs)) \<and>
   card (dom (initPheromones cs)) = length cs * (length cs - 1) div 2 \<and>
   (\<forall>k v. initPheromones cs k = Some v \<longrightarrow> v = 1)"
  using edgeKey_sym [of a b] dom_initPheromones [of cs] inj_on_edgeKey [of "length cs"]
    card_dom_initPheromones [of cs] initPheromones_ones [of cs]
  by blast

theorem edge_keys_witness:
  "edgeKey 0 1 = edgeKey 1 0 \<and>
   card (dom (initPheromones (cities ex_model3))) = 3 \<and>
   initPheromones (cities ex_model3) ''0-2'' = Some 1"
proof -
  have i: "initPheromones (cities ex_model3) = [''0-1'' \<mapsto> 1, ''0-2'' \<mapsto> 1, ''1-2'' \<mapsto> 1]"
    using init_ex3 by (simp add: ex_model3_def)
  have l: "length (cities ex_model3) = 3" by (simp add: ex_model3_def ex_cities_def)
  note t = edge_keys [of 0 1 "cities ex_model3"]
  from t have s: "edgeKey 0 1 = edgeKey 1 0" by (rule conjunct1)
  have "card (dom (initPheromones (cities ex_model3)))
      = length (cities ex_model3) * (length (cities ex_model3) - 1) div 2"
    by (rule conjunct1 [OF conjunct2 [OF conjunct2 [OF conjunct2 [OF t]]]])
  then have c: "card (dom (initPheromones (cities ex_model3))) = 3"
    by (simp add: l)
  have v: "initPheromones (cities ex_model3) ''0-2'' = Some 1"
    unfolding i by simp
  show ?thesis by (intro conjI) (rule s c v)+
qed

end
